theory Spec2Isabelle
  imports Main
begin

section \<open>Peg solitaire: board, move finder, move applier, scorer, driver\<close>

text \<open>
  The development embeds \<^verbatim>\<open>src/main.cpp\<close>. The integer types are those of an LP64
  platform: \<^verbatim>\<open>size_t\<close> is an unsigned 64-bit integer, modelled as \<open>nat\<close> with the
  wrap-around \<open>mod 2 ^ 64\<close> written out where the source computes with it;
  \<^verbatim>\<open>int\<close> values of the source stay between \<open>-2\<close> and the board size plus two and are
  modelled as \<open>int\<close>. Assertions are taken as enabled (\<^verbatim>\<open>NDEBUG\<close> not defined): a
  failing \<^verbatim>\<open>assert\<close> is the result \<open>Inl AssertionFailed\<close>. Indexing a
  \<^verbatim>\<open>std::array\<close> outside its extent is undefined behaviour in the source; the model
  reports it as \<open>Inl OutOfBounds\<close>.
\<close>

subsection \<open>Data model\<close>

datatype FieldState = UNUSABLE | EMPTY | OCCUPIED

text \<open>
  \<^verbatim>\<open>Board<size>\<close> is \<^verbatim>\<open>std::array<std::array<FieldState, size>, size>\<close>. The template
  parameter \<^verbatim>\<open>size\<close> is the extent of the array type, so the model reads it off the
  board as \<open>length board\<close>; \<open>square\<close> says that every row has that extent too, which
  the array type guarantees in the source.
\<close>

type_synonym Board = "FieldState list list"

definition square :: "Board \<Rightarrow> bool" where
  "square board = list_all (\<lambda>row. length row = length board) board"

text \<open>
  \<^verbatim>\<open>Coordinate\<close> is a pair of \<^verbatim>\<open>size_t\<close> (row, column). The fields \<^verbatim>\<open>from\<close> and
  \<^verbatim>\<open>to\<close> of \<^verbatim>\<open>Move\<close> are \<open>move_from\<close> and \<open>move_to\<close> here.
\<close>

type_synonym Coordinate = "nat \<times> nat"

record Move =
  move_from :: Coordinate
  move_to :: Coordinate

datatype error = StaticAssertFailed | OutOfBounds | AssertionFailed

subsection \<open>Array access\<close>

definition in_bounds :: "Board \<Rightarrow> nat \<Rightarrow> nat \<Rightarrow> bool" where
  "in_bounds board row column = (row < length board \<and> column < length (board ! row))"

text \<open>The assignment \<^verbatim>\<open>board[row][column] = value\<close> at indices inside the array.\<close>

definition put :: "Board \<Rightarrow> nat \<Rightarrow> nat \<Rightarrow> FieldState \<Rightarrow> Board" where
  "put board row column v = board[row := (board ! row)[column := v]]"

definition write_cell :: "Board \<Rightarrow> nat \<Rightarrow> nat \<Rightarrow> FieldState \<Rightarrow> error + Board" where
  "write_cell board row column v =
     (if in_bounds board row column then Inr (put board row column v) else Inl OutOfBounds)"

fun write_cells :: "Board \<Rightarrow> (nat \<times> nat) list \<Rightarrow> FieldState \<Rightarrow> error + Board" where
  "write_cells board [] v = Inr board"
| "write_cells board ((row, column) # rest) v =
     (case write_cell board row column v of
        Inl e \<Rightarrow> Inl e
      | Inr board' \<Rightarrow> write_cells board' rest v)"

text \<open>Subtraction of \<^verbatim>\<open>size_t\<close> values: it wraps around below zero.\<close>

definition size_t_sub :: "nat \<Rightarrow> nat \<Rightarrow> nat" where
  "size_t_sub a b = (a mod 2 ^ 64 + 2 ^ 64 - b mod 2 ^ 64) mod 2 ^ 64"

subsection \<open>\<^verbatim>\<open>make_board\<close>\<close>

text \<open>
  The \<^verbatim>\<open>static_assert\<close> rejects an even size. All cells are set to \<open>OCCUPIED\<close>; rows
  \<open>0\<close> and \<open>size - 1\<close> get columns \<open>0\<close>, \<open>1\<close>, \<open>size - 2\<close>, \<open>size - 1\<close> set to
  \<open>UNUSABLE\<close>; rows \<open>1\<close> and \<open>size - 2\<close> get columns \<open>0\<close> and \<open>size - 1\<close> set to
  \<open>UNUSABLE\<close>; last the centre is set to \<open>EMPTY\<close>. The writes happen in the order of
  the source.
\<close>

definition make_board :: "nat \<Rightarrow> error + Board" where
  "make_board sz =
     (if sz mod 2 \<noteq> 1 then Inl StaticAssertFailed
      else
        let zeroed = replicate sz (replicate sz UNUSABLE);
            board = map (map (\<lambda>cell. OCCUPIED)) zeroed;
            first_loop = concat (map (\<lambda>index.
                [(index, 0), (index, 1), (index, size_t_sub sz 2), (index, size_t_sub sz 1)])
                [0, size_t_sub sz 1]);
            second_loop = concat (map (\<lambda>index.
                [(index, 0), (index, size_t_sub sz 1)])
                [1, size_t_sub sz 2])
        in case write_cells board (first_loop @ second_loop) UNUSABLE of
             Inl e \<Rightarrow> Inl e
           | Inr board' \<Rightarrow> write_cell board' (sz div 2) (sz div 2) EMPTY)"

subsection \<open>\<^verbatim>\<open>get_from_board\<close>\<close>

definition get_from_board :: "Board \<Rightarrow> int \<Rightarrow> int \<Rightarrow> FieldState option" where
  "get_from_board board row column =
     (if row < 0 \<or> column < 0 \<or> row \<ge> int (length board) \<or> column \<ge> int (length board)
      then None
      else Some (board ! nat row ! nat column))"

subsection \<open>\<^verbatim>\<open>get_move\<close>\<close>

definition directions :: "(int \<times> int) list" where
  "directions = [(0, 1), (1, 0), (-1, 0), (0, -1)]"

text \<open>Conversion of an \<^verbatim>\<open>int\<close> to \<^verbatim>\<open>size_t\<close>, as when the move is built.\<close>

definition to_size_t :: "int \<Rightarrow> nat" where
  "to_size_t i = nat (i mod 2 ^ 64)"

text \<open>The loop over the four directions; \<^verbatim>\<open>continue\<close> is the recursive call.\<close>

fun direction_loop :: "Board \<Rightarrow> int \<Rightarrow> int \<Rightarrow> (int \<times> int) list \<Rightarrow> Move option" where
  "direction_loop board offsetted_row offsetted_column [] = None"
| "direction_loop board offsetted_row offsetted_column ((row_direction, column_direction) # rest) =
     (case get_from_board board (offsetted_row + row_direction)
             (offsetted_column + column_direction) of
        None \<Rightarrow> direction_loop board offsetted_row offsetted_column rest
      | Some next_to \<Rightarrow>
          if next_to \<noteq> OCCUPIED then direction_loop board offsetted_row offsetted_column rest
          else
            let target_row = offsetted_row + 2 * row_direction;
                target_column = offsetted_column + 2 * column_direction
            in case get_from_board board target_row target_column of
                 None \<Rightarrow> direction_loop board offsetted_row offsetted_column rest
               | Some over_one \<Rightarrow>
                   if over_one \<noteq> EMPTY
                   then direction_loop board offsetted_row offsetted_column rest
                   else Some \<lparr>move_from = (to_size_t offsetted_row, to_size_t offsetted_column),
                              move_to = (to_size_t target_row, to_size_t target_column)\<rparr>)"

text \<open>
  The inner loop over \<open>column\<close>. The sum \<^verbatim>\<open>row + row_offset\<close> is computed in
  \<^verbatim>\<open>size_t\<close> (the \<^verbatim>\<open>int\<close> is converted), so it wraps at \<open>2 ^ 64\<close> before the
  remainder by the size is taken.
\<close>

fun column_loop :: "Board \<Rightarrow> Coordinate \<Rightarrow> nat \<Rightarrow> nat list \<Rightarrow> error + Move option" where
  "column_loop board (row_offset, column_offset) row [] = Inr None"
| "column_loop board (row_offset, column_offset) row (column # columns) =
     (let offsetted_row = int (((row + row_offset) mod 2 ^ 64) mod length board);
          offsetted_column = int (((column + column_offset) mod 2 ^ 64) mod length board)
      in case get_from_board board offsetted_row offsetted_column of
           None \<Rightarrow> Inl AssertionFailed
         | Some cell \<Rightarrow>
             if cell = OCCUPIED then
               (case direction_loop board offsetted_row offsetted_column directions of
                  Some move \<Rightarrow> Inr (Some move)
                | None \<Rightarrow> column_loop board (row_offset, column_offset) row columns)
             else column_loop board (row_offset, column_offset) row columns)"

fun row_loop :: "Board \<Rightarrow> Coordinate \<Rightarrow> nat list \<Rightarrow> error + Move option" where
  "row_loop board offset [] = Inr None"
| "row_loop board offset (row # rows) =
     (case column_loop board offset row [0..<length board] of
        Inl e \<Rightarrow> Inl e
      | Inr (Some move) \<Rightarrow> Inr (Some move)
      | Inr None \<Rightarrow> row_loop board offset rows)"

definition get_move :: "Board \<Rightarrow> Coordinate \<Rightarrow> error + Move option" where
  "get_move board offset = row_loop board offset [0..<length board]"

subsection \<open>\<^verbatim>\<open>do_move\<close>\<close>

text \<open>\<^verbatim>\<open>std::midpoint\<close> on unsigned integers: half the sum, rounded towards the first argument.\<close>

definition midpoint :: "nat \<Rightarrow> nat \<Rightarrow> nat" where
  "midpoint a b = (if a \<le> b then a + (b - a) div 2 else a - (a - b) div 2)"

text \<open>
  The three references \<^verbatim>\<open>from\<close>, \<^verbatim>\<open>to\<close> and \<^verbatim>\<open>over\<close> are taken and written one
  after the other. The second assertion of the source reads \<^verbatim>\<open>from\<close> again, after it
  was set to \<open>EMPTY\<close>; the model reads the same cell.
\<close>

definition do_move :: "Board \<Rightarrow> Move \<Rightarrow> error + Board" where
  "do_move board move =
     (case move_from move of (from_row, from_column) \<Rightarrow>
      case move_to move of (to_row, to_column) \<Rightarrow>
        if \<not> in_bounds board from_row from_column then Inl OutOfBounds
        else if board ! from_row ! from_column \<noteq> OCCUPIED then Inl AssertionFailed
        else
          let board1 = put board from_row from_column EMPTY in
          if \<not> in_bounds board1 to_row to_column then Inl OutOfBounds
          else if board1 ! from_row ! from_column \<noteq> EMPTY then Inl AssertionFailed
          else
            let board2 = put board1 to_row to_column OCCUPIED;
                over_row = midpoint from_row to_row;
                over_column = midpoint from_column to_column
            in if \<not> in_bounds board2 over_row over_column then Inl OutOfBounds
               else if board2 ! over_row ! over_column \<noteq> OCCUPIED then Inl AssertionFailed
               else Inr (put board2 over_row over_column EMPTY))"

subsection \<open>\<^verbatim>\<open>get_score\<close>\<close>

definition get_score :: "Board \<Rightarrow> int" where
  "get_score board =
     (let results = map (\<lambda>v. int (length (filter (\<lambda>cell. cell = OCCUPIED) v))) board
      in foldl (+) 0 results)"

subsection \<open>Every applied move removes a peg\<close>

text \<open>
  The number of cells of a board in a given state; \<open>get_score\<close> is this count for
  \<open>OCCUPIED\<close>. A write changes it by what the cell held and what it holds now, so
  whenever \<^verbatim>\<open>do_move\<close> returns, the board has fewer pegs than before, for any board
  and any move: this is why the loop of the driver ends.
\<close>

definition count_state :: "FieldState \<Rightarrow> Board \<Rightarrow> nat" where
  "count_state s board = sum_list (map (\<lambda>row. length (filter (\<lambda>cell. cell = s) row)) board)"

lemma count_row_update:
  "c < length row \<Longrightarrow>
   length (filter (\<lambda>x. x = s) (row[c := v])) + (if row ! c = s then 1 else 0)
     = length (filter (\<lambda>x. x = s) row) + (if v = s then 1 else 0)"
proof (induction row arbitrary: c)
  case Nil
  then show ?case by simp
next
  case (Cons x row)
  show ?case
  proof (cases c)
    case 0
    then show ?thesis by simp
  next
    case (Suc k)
    with Cons.prems have "k < length row" by simp
    from Cons.IH [OF this] Suc show ?thesis by (auto split: if_splits)
  qed
qed

lemma sum_list_update_nat:
  "r < length xs \<Longrightarrow> sum_list (xs[r := y]) + xs ! r = sum_list xs + (y::nat)"
proof (induction xs arbitrary: r)
  case Nil
  then show ?case by simp
next
  case (Cons x xs)
  then show ?case by (cases r) auto
qed

lemma count_state_put:
  assumes "in_bounds b r c"
  shows "count_state s (put b r c v) + (if b ! r ! c = s then 1 else 0)
           = count_state s b + (if v = s then 1 else 0)"
proof -
  let ?f = "\<lambda>row. length (filter (\<lambda>cell. cell = s) row)"
  from assms have r: "r < length b" and c: "c < length (b ! r)" by (simp_all add: in_bounds_def)
  have "count_state s (put b r c v) + ?f (b ! r) = count_state s b + ?f ((b ! r)[c := v])"
    using sum_list_update_nat [of r "map ?f b" "?f ((b ! r)[c := v])"] r
    by (simp add: count_state_def put_def map_update)
  with count_row_update [OF c, of s v] show ?thesis by linarith
qed

lemma do_move_decreases:
  assumes "do_move b m = Inr b'"
  shows "count_state OCCUPIED b' < count_state OCCUPIED b"
proof -
  obtain fr fc where mf: "move_from m = (fr, fc)" by (cases "move_from m")
  obtain tr tc where mt: "move_to m = (tr, tc)" by (cases "move_to m")
  let ?mr = "midpoint fr tr" and ?mc = "midpoint fc tc"
  let ?b1 = "put b fr fc EMPTY"
  let ?b2 = "put ?b1 tr tc OCCUPIED"
  from assms have ib0: "in_bounds b fr fc" and v0: "b ! fr ! fc = OCCUPIED"
    and ib1: "in_bounds ?b1 tr tc" and ib2: "in_bounds ?b2 ?mr ?mc"
    and v2: "?b2 ! ?mr ! ?mc = OCCUPIED" and b': "b' = put ?b2 ?mr ?mc EMPTY"
    by (auto simp: do_move_def mf mt Let_def split: if_splits)
  have c1: "count_state OCCUPIED ?b1 + 1 = count_state OCCUPIED b"
    using count_state_put [OF ib0, of OCCUPIED EMPTY] v0 by simp
  have c2: "count_state OCCUPIED ?b2 \<le> count_state OCCUPIED ?b1 + 1"
    using count_state_put [OF ib1, of OCCUPIED OCCUPIED] by (simp split: if_splits)
  have c3: "count_state OCCUPIED b' + 1 = count_state OCCUPIED ?b2"
    using count_state_put [OF ib2, of OCCUPIED EMPTY] v2 by (simp add: b')
  from c1 c2 c3 show ?thesis by linarith
qed

subsection \<open>\<^verbatim>\<open>run_simulation\<close>\<close>

text \<open>
  \<^verbatim>\<open>run_simulation\<close> works on the generator of the C library, a global of the process:
  \<^verbatim>\<open>srand(seed)\<close> replaces its state, \<^verbatim>\<open>rand()\<close> returns a non-negative \<^verbatim>\<open>int\<close> and
  advances it. The library is not part of the repository, so the generator is a parameter of
  the model: \<open>srand seed\<close> is the state after the call \<^verbatim>\<open>srand(seed)\<close> (with its
  conversion of the seed to \<^verbatim>\<open>unsigned int\<close>) and \<open>rand g\<close> the number drawn from the
  state \<open>g\<close> with the next state. The state of the generator before the call is
  the argument \<open>g0\<close>. The presenter (what is printed when \<^verbatim>\<open>print_run\<close> is set, and the
  pause between moves) changes no variable of the run and is left out.

  The local variables of \<^verbatim>\<open>run_simulation\<close> are the fields of \<open>sim_state\<close>, named as in
  the source with the prefix \<open>sim_\<close>.
\<close>

record 'g sim_state =
  sim_gen :: 'g
  sim_board :: Board
  sim_possible_move :: "Move option"
  sim_score :: int
  sim_move_history :: "Move list"

text \<open>\<^verbatim>\<open>int constexpr board_size = 9;\<close>\<close>

definition board_size :: nat where
  "board_size = 9"

text \<open>
  One iteration of the \<^verbatim>\<open>while\<close> loop, for the move in \<^verbatim>\<open>possible_move\<close>: apply it,
  record it, draw the next offset (row first, then column), look for the next move, and
  decrement the score.
\<close>

definition loop_body :: "('g \<Rightarrow> nat \<times> 'g) \<Rightarrow> 'g sim_state \<Rightarrow> Move \<Rightarrow> error + 'g sim_state" where
  "loop_body rand st move =
     (case do_move (sim_board st) move of
        Inl e \<Rightarrow> Inl e
      | Inr board' \<Rightarrow>
          (case rand (sim_gen st) of (rx, g1) \<Rightarrow>
           case rand g1 of (ry, g2) \<Rightarrow>
             (case get_move board' (rx, ry) of
                Inl e \<Rightarrow> Inl e
              | Inr possible_move' \<Rightarrow>
                  Inr \<lparr>sim_gen = g2,
                       sim_board = board',
                       sim_possible_move = possible_move',
                       sim_score = sim_score st - 1,
                       sim_move_history = sim_move_history st @ [move]\<rparr>)))"

lemma loop_body_decreases:
  assumes "loop_body rand st move = Inr st'"
  shows "count_state OCCUPIED (sim_board st') < count_state OCCUPIED (sim_board st)"
proof -
  from assms obtain board' where d: "do_move (sim_board st) move = Inr board'"
    and b: "sim_board st' = board'"
    by (auto simp: loop_body_def split: sum.splits prod.splits)
  from do_move_decreases [OF d] b show ?thesis by simp
qed

function sim_loop :: "('g \<Rightarrow> nat \<times> 'g) \<Rightarrow> 'g sim_state \<Rightarrow> error + 'g sim_state" where
  "sim_loop rand st =
     (case sim_possible_move st of
        None \<Rightarrow> Inr st
      | Some move \<Rightarrow>
          (case loop_body rand st move of
             Inl e \<Rightarrow> Inl e
           | Inr st' \<Rightarrow> sim_loop rand st'))"
  by pat_completeness auto

termination
  by (relation "measure (\<lambda>(rand, st). count_state OCCUPIED (sim_board st))")
    (auto dest: loop_body_decreases)

text \<open>
  The code up to the loop: seed the generator, build the board, draw the first offset, look for
  the first move, and set the score to \<^verbatim>\<open>board_size * board_size - 13\<close>.
\<close>

definition sim_start :: "(nat \<Rightarrow> 'g) \<Rightarrow> ('g \<Rightarrow> nat \<times> 'g) \<Rightarrow> nat \<Rightarrow> 'g \<Rightarrow> error + 'g sim_state" where
  "sim_start srand rand seed g0 =
     (let g = srand seed in
      case make_board board_size of
        Inl e \<Rightarrow> Inl e
      | Inr board0 \<Rightarrow>
          (case rand g of (rx, g1) \<Rightarrow>
           case rand g1 of (ry, g2) \<Rightarrow>
             (case get_move board0 (rx, ry) of
                Inl e \<Rightarrow> Inl e
              | Inr possible_move0 \<Rightarrow>
                  Inr \<lparr>sim_gen = g2,
                       sim_board = board0,
                       sim_possible_move = possible_move0,
                       sim_score = int board_size * int board_size - 13,
                       sim_move_history = []\<rparr>)))"

text \<open>
  \<open>simulate\<close> is the body of \<^verbatim>\<open>run_simulation\<close> up to its \<^verbatim>\<open>return\<close>: it gives the
  variables at that point, of which the source returns \<^verbatim>\<open>score\<close> and prints
  \<^verbatim>\<open>move_history\<close>.
\<close>

definition simulate :: "(nat \<Rightarrow> 'g) \<Rightarrow> ('g \<Rightarrow> nat \<times> 'g) \<Rightarrow> nat \<Rightarrow> 'g \<Rightarrow> error + 'g sim_state" where
  "simulate srand rand seed g0 =
     (case sim_start srand rand seed g0 of
        Inl e \<Rightarrow> Inl e
      | Inr st \<Rightarrow> sim_loop rand st)"

definition run_simulation :: "(nat \<Rightarrow> 'g) \<Rightarrow> ('g \<Rightarrow> nat \<times> 'g) \<Rightarrow> nat \<Rightarrow> 'g \<Rightarrow> error + int" where
  "run_simulation srand rand seed g0 =
     (case simulate srand rand seed g0 of
        Inl e \<Rightarrow> Inl e
      | Inr st \<Rightarrow> Inr (sim_score st))"

section \<open>Definitions used to state the properties\<close>

text \<open>
  The cells that \<^verbatim>\<open>make_board\<close> cuts from the corners: the corner cell and its two
  neighbours along the edges, three cells at each corner.
\<close>

definition corner_cut :: "nat \<Rightarrow> nat \<Rightarrow> nat \<Rightarrow> bool" where
  "corner_cut n r c =
     (((r = 0 \<or> r = n - 1) \<and> (c = 0 \<or> c = 1 \<or> c = n - 2 \<or> c = n - 1)) \<or>
      ((r = 1 \<or> r = n - 2) \<and> (c = 0 \<or> c = n - 1)))"

definition initial_cell :: "nat \<Rightarrow> nat \<Rightarrow> nat \<Rightarrow> FieldState" where
  "initial_cell n r c =
     (if r = n div 2 \<and> c = n div 2 then EMPTY
      else if corner_cut n r c then UNUSABLE
      else OCCUPIED)"

definition cut_cells :: "nat \<Rightarrow> (nat \<times> nat) list" where
  "cut_cells n =
     [(0, 0), (0, 1), (0, n - 2), (0, n - 1),
      (n - 1, 0), (n - 1, 1), (n - 1, n - 2), (n - 1, n - 1),
      (1, 0), (1, n - 1), (n - 2, 0), (n - 2, n - 1)]"

text \<open>The boards that \<^verbatim>\<open>make_board<9>\<close> and \<^verbatim>\<open>make_board<3>\<close> build, written out.\<close>

definition cross9 :: Board where
  "cross9 =
     [[UNUSABLE, UNUSABLE, OCCUPIED, OCCUPIED, OCCUPIED, OCCUPIED, OCCUPIED, UNUSABLE, UNUSABLE],
      [UNUSABLE, OCCUPIED, OCCUPIED, OCCUPIED, OCCUPIED, OCCUPIED, OCCUPIED, OCCUPIED, UNUSABLE],
      [OCCUPIED, OCCUPIED, OCCUPIED, OCCUPIED, OCCUPIED, OCCUPIED, OCCUPIED, OCCUPIED, OCCUPIED],
      [OCCUPIED, OCCUPIED, OCCUPIED, OCCUPIED, OCCUPIED, OCCUPIED, OCCUPIED, OCCUPIED, OCCUPIED],
      [OCCUPIED, OCCUPIED, OCCUPIED, OCCUPIED, EMPTY, OCCUPIED, OCCUPIED, OCCUPIED, OCCUPIED],
      [OCCUPIED, OCCUPIED, OCCUPIED, OCCUPIED, OCCUPIED, OCCUPIED, OCCUPIED, OCCUPIED, OCCUPIED],
      [OCCUPIED, OCCUPIED, OCCUPIED, OCCUPIED, OCCUPIED, OCCUPIED, OCCUPIED, OCCUPIED, OCCUPIED],
      [UNUSABLE, OCCUPIED, OCCUPIED, OCCUPIED, OCCUPIED, OCCUPIED, OCCUPIED, OCCUPIED, UNUSABLE],
      [UNUSABLE, UNUSABLE, OCCUPIED, OCCUPIED, OCCUPIED, OCCUPIED, OCCUPIED, UNUSABLE, UNUSABLE]]"

definition cross3 :: Board where
  "cross3 =
     [[UNUSABLE, UNUSABLE, UNUSABLE],
      [UNUSABLE, EMPTY, UNUSABLE],
      [UNUSABLE, UNUSABLE, UNUSABLE]]"

text \<open>
  The loop counters of \<^verbatim>\<open>get_move\<close> are \<^verbatim>\<open>int\<close>s, so the model of it is the source
  for boards whose size fits an \<^verbatim>\<open>int\<close>; \<open>wf_board\<close> adds this bound to \<open>square\<close>.
\<close>

definition wf_board :: "Board \<Rightarrow> bool" where
  "wf_board board = (square board \<and> length board < 2 ^ 31)"

text \<open>
  The words of the specification of the move finder. A jump from \<open>cell\<close> in a direction
  is possible when the adjacent cell is \<open>OCCUPIED\<close> and the landing cell two steps
  away is \<open>EMPTY\<close>; a cell admits a jump when it is \<open>OCCUPIED\<close> itself and some
  direction of the fixed order allows one; \<open>first_jump\<close> takes the first cell of a scan
  that admits a jump and the first direction that allows it; \<open>rotated_scan\<close> is the
  row-major enumeration rotated by the offset, and \<open>find_move_spec\<close> the move the
  specification describes.
\<close>

definition jump_ok :: "Board \<Rightarrow> nat \<times> nat \<Rightarrow> int \<times> int \<Rightarrow> bool" where
  "jump_ok board cell direction =
     (get_from_board board (int (fst cell) + fst direction) (int (snd cell) + snd direction)
        = Some OCCUPIED \<and>
      get_from_board board (int (fst cell) + 2 * fst direction)
        (int (snd cell) + 2 * snd direction) = Some EMPTY)"

definition admits_jump :: "Board \<Rightarrow> nat \<times> nat \<Rightarrow> bool" where
  "admits_jump board cell =
     (get_from_board board (int (fst cell)) (int (snd cell)) = Some OCCUPIED \<and>
      list_ex (jump_ok board cell) directions)"

definition jump_move :: "nat \<times> nat \<Rightarrow> int \<times> int \<Rightarrow> Move" where
  "jump_move cell direction =
     \<lparr>move_from = cell,
      move_to = (nat (int (fst cell) + 2 * fst direction),
                 nat (int (snd cell) + 2 * snd direction))\<rparr>"

definition first_jump :: "Board \<Rightarrow> (nat \<times> nat) list \<Rightarrow> Move option" where
  "first_jump board cells =
     (case find (admits_jump board) cells of
        None \<Rightarrow> None
      | Some cell \<Rightarrow> map_option (jump_move cell) (find (jump_ok board cell) directions))"

definition rotated_scan :: "nat \<Rightarrow> Coordinate \<Rightarrow> (nat \<times> nat) list" where
  "rotated_scan n offset =
     concat (map (\<lambda>row. map (\<lambda>column.
       ((row + fst offset) mod n, (column + snd offset) mod n)) [0..<n]) [0..<n])"

definition find_move_spec :: "Board \<Rightarrow> Coordinate \<Rightarrow> Move option" where
  "find_move_spec board offset = first_jump board (rotated_scan (length board) offset)"

text \<open>
  The cells in the order the source visits them: the sum with the offset wraps at
  \<open>2 ^ 64\<close> before the remainder is taken.
\<close>

definition wrapped_cell :: "nat \<Rightarrow> Coordinate \<Rightarrow> nat \<Rightarrow> nat \<Rightarrow> nat \<times> nat" where
  "wrapped_cell n offset row column =
     (((row + fst offset) mod 2 ^ 64) mod n, ((column + snd offset) mod 2 ^ 64) mod n)"

definition wrapped_scan :: "nat \<Rightarrow> Coordinate \<Rightarrow> (nat \<times> nat) list" where
  "wrapped_scan n offset =
     concat (map (\<lambda>row. map (\<lambda>column. wrapped_cell n offset row column) [0..<n]) [0..<n])"

text \<open>
  The preconditions of \<^verbatim>\<open>do_move\<close> as the specification gives them: the origin is
  \<open>OCCUPIED\<close>, the destination \<open>EMPTY\<close>, the two are exactly two cells apart along
  one axis, and the cell between them is \<open>OCCUPIED\<close>.
\<close>

definition valid_move :: "Board \<Rightarrow> Move \<Rightarrow> bool" where
  "valid_move board move =
     (case move_from move of (from_row, from_column) \<Rightarrow>
      case move_to move of (to_row, to_column) \<Rightarrow>
        get_from_board board (int from_row) (int from_column) = Some OCCUPIED \<and>
        get_from_board board (int to_row) (int to_column) = Some EMPTY \<and>
        ((from_row = to_row \<and> (from_column + 2 = to_column \<or> to_column + 2 = from_column)) \<or>
         (from_column = to_column \<and> (from_row + 2 = to_row \<or> to_row + 2 = from_row))) \<and>
        get_from_board board (int (midpoint from_row to_row))
          (int (midpoint from_column to_column)) = Some OCCUPIED)"

text \<open>The board after a jump: the three writes of \<^verbatim>\<open>do_move\<close>.\<close>

definition after_jump :: "Board \<Rightarrow> Move \<Rightarrow> Board" where
  "after_jump board move =
     (case move_from move of (from_row, from_column) \<Rightarrow>
      case move_to move of (to_row, to_column) \<Rightarrow>
        put (put (put board from_row from_column EMPTY) to_row to_column OCCUPIED)
          (midpoint from_row to_row) (midpoint from_column to_column) EMPTY)"

text \<open>The states of the three cells of a move, as \<^verbatim>\<open>get_from_board\<close> reads them.\<close>

definition origin_state :: "Board \<Rightarrow> Move \<Rightarrow> FieldState option" where
  "origin_state board move =
     get_from_board board (int (fst (move_from move))) (int (snd (move_from move)))"

definition destination_state :: "Board \<Rightarrow> Move \<Rightarrow> FieldState option" where
  "destination_state board move =
     get_from_board board (int (fst (move_to move))) (int (snd (move_to move)))"

definition midpoint_state :: "Board \<Rightarrow> Move \<Rightarrow> FieldState option" where
  "midpoint_state board move =
     get_from_board board (int (midpoint (fst (move_from move)) (fst (move_to move))))
       (int (midpoint (snd (move_from move)) (snd (move_to move))))"

text \<open>
  A board of size 9 whose only pegs are at \<open>(8, 3)\<close> and \<open>(8, 4)\<close>, so that every
  possible jump starts in row 8.
\<close>

definition wrap_board :: Board where
  "wrap_board =
     [[UNUSABLE, UNUSABLE, EMPTY, EMPTY, EMPTY, EMPTY, EMPTY, UNUSABLE, UNUSABLE],
      [UNUSABLE, EMPTY, EMPTY, EMPTY, EMPTY, EMPTY, EMPTY, EMPTY, UNUSABLE],
      [EMPTY, EMPTY, EMPTY, EMPTY, EMPTY, EMPTY, EMPTY, EMPTY, EMPTY],
      [EMPTY, EMPTY, EMPTY, EMPTY, EMPTY, EMPTY, EMPTY, EMPTY, EMPTY],
      [EMPTY, EMPTY, EMPTY, EMPTY, EMPTY, EMPTY, EMPTY, EMPTY, EMPTY],
      [EMPTY, EMPTY, EMPTY, EMPTY, EMPTY, EMPTY, EMPTY, EMPTY, EMPTY],
      [EMPTY, EMPTY, EMPTY, EMPTY, EMPTY, EMPTY, EMPTY, EMPTY, EMPTY],
      [UNUSABLE, EMPTY, EMPTY, EMPTY, EMPTY, EMPTY, EMPTY, EMPTY, UNUSABLE],
      [UNUSABLE, UNUSABLE, EMPTY, OCCUPIED, OCCUPIED, EMPTY, EMPTY, UNUSABLE, UNUSABLE]]"

text \<open>
  To speak about the run after every move: the state after at most \<open>k\<close> iterations of the
  loop (fewer when the loop has ended before).
\<close>

fun sim_steps :: "('g \<Rightarrow> nat \<times> 'g) \<Rightarrow> nat \<Rightarrow> 'g sim_state \<Rightarrow> error + 'g sim_state" where
  "sim_steps rand 0 st = Inr st"
| "sim_steps rand (Suc k) st =
     (case sim_possible_move st of
        None \<Rightarrow> Inr st
      | Some move \<Rightarrow>
          (case loop_body rand st move of
             Inl e \<Rightarrow> Inl e
           | Inr st' \<Rightarrow> sim_steps rand k st'))"

definition simulate_steps ::
  "(nat \<Rightarrow> 'g) \<Rightarrow> ('g \<Rightarrow> nat \<times> 'g) \<Rightarrow> nat \<Rightarrow> 'g \<Rightarrow> nat \<Rightarrow> error + 'g sim_state" where
  "simulate_steps srand rand seed g0 k =
     (case sim_start srand rand seed g0 of
        Inl e \<Rightarrow> Inl e
      | Inr st \<Rightarrow> sim_steps rand k st)"

text \<open>The boards that moves of the finder produce from the initial board.\<close>

inductive reachable :: "nat \<Rightarrow> Board \<Rightarrow> bool" for sz :: nat where
  start: "make_board sz = Inr board0 \<Longrightarrow> reachable sz board0"
| step: "reachable sz b \<Longrightarrow> get_move b offset = Inr (Some move) \<Longrightarrow>
         do_move b move = Inr b' \<Longrightarrow> reachable sz b'"

text \<open>The invariant of the loop.\<close>

definition sim_inv :: "'g sim_state \<Rightarrow> bool" where
  "sim_inv st =
     (wf_board (sim_board st) \<and>
      reachable board_size (sim_board st) \<and>
      (case sim_possible_move st of
         None \<Rightarrow> True
       | Some move \<Rightarrow> valid_move (sim_board st) move \<and>
           (\<exists>offset. get_move (sim_board st) offset = Inr (Some move))) \<and>
      sim_score st = get_score (sim_board st) \<and>
      int (length (sim_move_history st)) + sim_score st = int board_size * int board_size - 13)"

text \<open>
  What a run shows of its state: the board, the pending move, the score and the moves made;
  the state of the generator is not part of it. Two generators make the same draws when,
  started from related states, they return the same numbers and end in related states.
\<close>

definition observable :: "'g sim_state \<Rightarrow> Board \<times> Move option \<times> int \<times> Move list" where
  "observable st = (sim_board st, sim_possible_move st, sim_score st, sim_move_history st)"

definition outcome :: "error + 'g sim_state \<Rightarrow> error + Board \<times> Move option \<times> int \<times> Move list" where
  "outcome r = (case r of Inl e \<Rightarrow> Inl e | Inr st \<Rightarrow> Inr (observable st))"

definition same_draws :: "('g \<Rightarrow> 'h \<Rightarrow> bool) \<Rightarrow> ('g \<Rightarrow> nat \<times> 'g) \<Rightarrow> ('h \<Rightarrow> nat \<times> 'h) \<Rightarrow> bool" where
  "same_draws R rand rand' =
     (\<forall>g h. R g h \<longrightarrow> fst (rand g) = fst (rand' h) \<and> R (snd (rand g)) (snd (rand' h)))"

section \<open>Arrays: bounds, writes and counts\<close>

lemma size_t_sub_plain:
  assumes "b \<le> a" "a < 2 ^ 64"
  shows "size_t_sub a b = a - b"
proof -
  have "a mod 2 ^ 64 + 2 ^ 64 - b mod 2 ^ 64 = (a - b) + 2 ^ 64" using assms by simp
  then have "size_t_sub a b = ((a - b) + 2 ^ 64) mod 2 ^ 64"
    unfolding size_t_sub_def by (rule arg_cong)
  also have "\<dots> = (a - b) mod 2 ^ 64" by (rule mod_add_self2)
  also have "\<dots> = a - b" using assms by (intro mod_less) simp
  finally show ?thesis .
qed

lemma squareD: "square b \<Longrightarrow> r < length b \<Longrightarrow> length (b ! r) = length b"
  by (simp add: square_def list_all_length)

lemma in_bounds_square: "square b \<Longrightarrow> in_bounds b r c \<longleftrightarrow> r < length b \<and> c < length b"
  by (auto simp: in_bounds_def squareD)

lemma length_put [simp]: "length (put b r c v) = length b"
  by (simp add: put_def)

lemma square_put: "square b \<Longrightarrow> square (put b r c v)"
proof (cases "r < length b")
  case True
  assume "square b"
  with True show ?thesis
    by (auto simp: square_def put_def list_all_length nth_list_update)
next
  case False
  assume "square b"
  with False show ?thesis by (simp add: put_def list_update_beyond)
qed

lemma nth_put:
  "in_bounds b r c \<Longrightarrow> put b r c v ! r' ! c' = (if r' = r \<and> c' = c then v else b ! r' ! c')"
  by (auto simp: put_def in_bounds_def nth_list_update)

lemma get_from_board_nat:
  "get_from_board b (int r) (int c) = (if r < length b \<and> c < length b then Some (b ! r ! c) else None)"
  by (auto simp: get_from_board_def)

lemma get_from_board_Some:
  "get_from_board b r c = Some s \<longleftrightarrow> 0 \<le> r \<and> 0 \<le> c \<and> r < int (length b) \<and> c < int (length b) \<and> b ! nat r ! nat c = s"
  by (auto simp: get_from_board_def)

lemma write_cells_ok:
  "square b \<Longrightarrow> \<forall>(r, c) \<in> set ws. r < length b \<and> c < length b \<Longrightarrow>
   \<exists>b'. write_cells b ws v = Inr b' \<and> length b' = length b \<and> square b' \<and>
        (\<forall>r c. b' ! r ! c = (if (r, c) \<in> set ws then v else b ! r ! c))"
proof (induction ws arbitrary: b)
  case Nil
  then show ?case by simp
next
  case (Cons w ws)
  obtain r c where w: "w = (r, c)" by (cases w)
  from Cons.prems w have rc: "r < length b" "c < length b" by auto
  with Cons.prems(1) have ib: "in_bounds b r c" by (simp add: in_bounds_square)
  let ?b1 = "put b r c v"
  have sq1: "square ?b1" using Cons.prems(1) by (rule square_put)
  have "\<forall>(r, c) \<in> set ws. r < length ?b1 \<and> c < length ?b1" using Cons.prems(2) by auto
  from Cons.IH [OF sq1 this] obtain b' where
    b': "write_cells ?b1 ws v = Inr b'" "length b' = length ?b1" "square b'"
        "\<forall>r c. b' ! r ! c = (if (r, c) \<in> set ws then v else ?b1 ! r ! c)" by blast
  have "write_cells b (w # ws) v = Inr b'" using ib b'(1) w by (simp add: write_cell_def)
  moreover have "\<forall>r' c'. b' ! r' ! c' = (if (r', c') \<in> set (w # ws) then v else b ! r' ! c')"
    using b'(4) w by (auto simp: nth_put [OF ib])
  ultimately show ?case using b'(2,3) by auto
qed

lemma foldl_add_int: "foldl (+) a xs = a + sum_list (xs :: int list)"
  by (induction xs arbitrary: a) auto

lemma get_score_count: "get_score b = int (count_state OCCUPIED b)"
  by (induction b) (auto simp: get_score_def count_state_def foldl_add_int)

lemma count_state_card:
  assumes "square b"
  shows "count_state s b = card {(r, c). r < length b \<and> c < length b \<and> b ! r ! c = s}"
proof -
  let ?n = "length b"
  have "count_state s b = (\<Sum>r = 0..<?n. length (filter (\<lambda>cell. cell = s) (b ! r)))"
    by (simp add: count_state_def sum_list_sum_nth)
  also have "\<dots> = (\<Sum>r = 0..<?n. card {c. c < ?n \<and> b ! r ! c = s})"
    using assms by (intro sum.cong refl) (simp add: length_filter_conv_card squareD)
  also have "\<dots> = card (SIGMA r:{0..<?n}. {c. c < ?n \<and> b ! r ! c = s})"
    by simp
  also have "(SIGMA r:{0..<?n}. {c. c < ?n \<and> b ! r ! c = s})
               = {(r, c). r < ?n \<and> c < ?n \<and> b ! r ! c = s}"
    by auto
  finally show ?thesis .
qed

text \<open>Evaluation of list functions at numerals.\<close>

lemma replicate_numeral: "replicate (numeral k) x = x # replicate (pred_numeral k) x"
  by (simp add: numeral_eq_Suc)

lemma list_update_numeral: "(x # xs)[numeral k := y] = x # xs[pred_numeral k := y]"
  by (simp add: numeral_eq_Suc)

section \<open>The initial board\<close>

lemma square_replicate: "square (replicate n (replicate n s))"
  by (simp add: square_def list_all_length)

lemma make_board_unfold:
  assumes "odd n" "3 \<le> n" "n < 2 ^ 64"
  shows "make_board n =
           (case write_cells (replicate n (replicate n OCCUPIED)) (cut_cells n) UNUSABLE of
              Inl e \<Rightarrow> Inl e
            | Inr board' \<Rightarrow> write_cell board' (n div 2) (n div 2) EMPTY)"
proof -
  have s1: "size_t_sub n (Suc 0) = n - 1" using assms by (simp add: size_t_sub_plain)
  have s2: "size_t_sub n 2 = n - 2" using assms by (intro size_t_sub_plain) simp_all
  have "n mod 2 = 1" using assms(1) by (simp add: odd_iff_mod_2_eq_one)
  then show ?thesis
    by (simp add: make_board_def s1 s2 cut_cells_def Let_def)
qed

lemma mem_cut_cells: "(r, c) \<in> set (cut_cells n) \<longleftrightarrow> corner_cut n r c"
  by (auto simp: cut_cells_def corner_cut_def)

lemma make_board_result:
  assumes "odd n" "3 \<le> n" "n < 2 ^ 64"
  shows "\<exists>b. make_board n = Inr b \<and> length b = n \<and> square b \<and>
             (\<forall>r c. r < n \<longrightarrow> c < n \<longrightarrow> b ! r ! c = initial_cell n r c)"
proof -
  let ?b0 = "replicate n (replicate n OCCUPIED)"
  have sq0: "square ?b0" by (rule square_replicate)
  have "\<forall>(r, c) \<in> set (cut_cells n). r < length ?b0 \<and> c < length ?b0"
    using assms(2) by (auto simp: cut_cells_def)
  from write_cells_ok [OF sq0 this, of UNUSABLE] obtain b1 where
    b1: "write_cells ?b0 (cut_cells n) UNUSABLE = Inr b1" "length b1 = n" "square b1"
        "\<forall>r c. b1 ! r ! c = (if (r, c) \<in> set (cut_cells n) then UNUSABLE else ?b0 ! r ! c)"
    by auto
  have mid: "n div 2 < n" using assms(2) by simp
  with b1 have ib: "in_bounds b1 (n div 2) (n div 2)" by (simp add: in_bounds_square)
  let ?b = "put b1 (n div 2) (n div 2) EMPTY"
  have "make_board n = Inr ?b"
    using b1(1) ib by (simp add: make_board_unfold [OF assms] write_cell_def)
  moreover have "square ?b" using b1(3) by (rule square_put)
  moreover have "\<forall>r c. r < n \<longrightarrow> c < n \<longrightarrow> ?b ! r ! c = initial_cell n r c"
    using b1(4) by (simp add: nth_put [OF ib] initial_cell_def mem_cut_cells)
  ultimately show ?thesis using b1(2) by auto
qed

lemma count_row_total:
  "length (filter (\<lambda>x. x = UNUSABLE) row) + length (filter (\<lambda>x. x = EMPTY) row)
     + length (filter (\<lambda>x. x = OCCUPIED) row) = length row"
proof (induction row)
  case Nil
  then show ?case by simp
next
  case (Cons x row)
  then show ?case by (cases x) simp_all
qed

lemma count_state_total_rows:
  "count_state UNUSABLE b + count_state EMPTY b + count_state OCCUPIED b = sum_list (map length b)"
proof (induction b)
  case Nil
  then show ?case by (simp add: count_state_def)
next
  case (Cons row b)
  have "count_state s (row # b) = length (filter (\<lambda>x. x = s) row) + count_state s b" for s
    by (simp add: count_state_def)
  with Cons count_row_total [of row] show ?case by simp
qed

lemma count_state_total:
  assumes "square b"
  shows "count_state UNUSABLE b + count_state EMPTY b + count_state OCCUPIED b
           = length b * length b"
proof -
  have "map length b = replicate (length b) (length b)"
    using assms by (intro nth_equalityI) (simp_all add: squareD)
  then have "sum_list (map length b) = length b * length b"
    by (simp add: sum_list_replicate)
  then show ?thesis by (simp add: count_state_total_rows)
qed

lemma distinct_cut_cells: "5 \<le> n \<Longrightarrow> distinct (cut_cells n)"
  by (simp add: cut_cells_def) arith

lemma centre_not_cut: "5 \<le> n \<Longrightarrow> \<not> corner_cut n (n div 2) (n div 2)"
  by (simp add: corner_cut_def) arith

lemma corner_cut_in_range: "3 \<le> n \<Longrightarrow> corner_cut n r c \<Longrightarrow> r < n \<and> c < n"
  by (auto simp: corner_cut_def)

lemma make_board_count_ok:
  assumes "odd n" "5 \<le> n" "n < 2 ^ 64"
  shows "\<exists>b. make_board n = Inr b \<and> square b \<and> length b = n \<and>
             b ! (n div 2) ! (n div 2) = EMPTY \<and>
             count_state EMPTY b = 1 \<and>
             count_state UNUSABLE b = 12 \<and>
             count_state OCCUPIED b + 13 = n * n"
proof -
  from assms have "3 \<le> n" by simp
  from make_board_result [OF assms(1) this assms(3)] obtain b where
    b: "make_board n = Inr b" "length b = n" "square b"
       "\<forall>r c. r < n \<longrightarrow> c < n \<longrightarrow> b ! r ! c = initial_cell n r c" by blast
  have mid: "n div 2 < n" using assms(2) by simp
  have cell: "b ! r ! c = initial_cell n r c" if "r < n" "c < n" for r c
    using b(4) that by simp
  have unusable: "initial_cell n r c = UNUSABLE \<longleftrightarrow> corner_cut n r c" for r c
    using centre_not_cut [OF assms(2)] by (auto simp: initial_cell_def)
  have empty: "initial_cell n r c = EMPTY \<longleftrightarrow> r = n div 2 \<and> c = n div 2" for r c
    by (simp add: initial_cell_def)
  have "{(r, c). r < n \<and> c < n \<and> b ! r ! c = UNUSABLE} = set (cut_cells n)"
    using corner_cut_in_range [OF \<open>3 \<le> n\<close>]
    by (auto simp: cell unusable mem_cut_cells)
  then have u: "count_state UNUSABLE b = 12"
    using distinct_card [OF distinct_cut_cells [OF assms(2)]] b(2,3)
    by (simp add: count_state_card cut_cells_def)
  have "{(r, c). r < n \<and> c < n \<and> b ! r ! c = EMPTY} = {(n div 2, n div 2)}"
    using mid by (auto simp: cell empty)
  then have e: "count_state EMPTY b = 1"
    using b(2,3) by (simp add: count_state_card)
  have "b ! (n div 2) ! (n div 2) = EMPTY" using mid by (simp add: cell empty)
  moreover have "count_state OCCUPIED b + 13 = n * n"
    using count_state_total [OF b(3)] u e b(2) by simp
  ultimately show ?thesis using b(1,2,3) u e by blast
qed

section \<open>The move finder\<close>

lemma to_size_t_nonneg: "0 \<le> i \<Longrightarrow> i < 2 ^ 64 \<Longrightarrow> to_size_t i = nat i"
  by (simp add: to_size_t_def)

lemma wf_board_bound: "wf_board b \<Longrightarrow> int (length b) < 2 ^ 64"
proof -
  assume "wf_board b"
  then have "length b < 2 ^ 31" by (simp add: wf_board_def)
  then have "int (length b) < 2 ^ 31" by (metis of_nat_less_numeral_power_cancel_iff)
  then show ?thesis by simp
qed

lemma direction_loop_find:
  assumes "wf_board b" "r < length b" "c < length b"
  shows "direction_loop b (int r) (int c) ds
           = map_option (jump_move (r, c)) (find (jump_ok b (r, c)) ds)"
proof (induction ds)
  case Nil
  then show ?case by simp
next
  case (Cons d ds)
  obtain dr dc where d: "d = (dr, dc)" by (cases d)
  have bound: "int (length b) < 2 ^ 64" using assms(1) by (rule wf_board_bound)
  have r: "to_size_t (int r) = r" "to_size_t (int c) = c"
    using assms(2,3) bound by (simp_all add: to_size_t_def)
  show ?case
  proof (cases "jump_ok b (r, c) d")
    case True
    then have adj: "get_from_board b (int r + dr) (int c + dc) = Some OCCUPIED"
      and land: "get_from_board b (int r + 2 * dr) (int c + 2 * dc) = Some EMPTY"
      by (simp_all add: jump_ok_def d)
    from land have "0 \<le> int r + 2 * dr" "int r + 2 * dr < 2 ^ 64"
      "0 \<le> int c + 2 * dc" "int c + 2 * dc < 2 ^ 64"
      using bound by (auto simp: get_from_board_Some)
    then have t: "to_size_t (int r + 2 * dr) = nat (int r + 2 * dr)"
      "to_size_t (int c + 2 * dc) = nat (int c + 2 * dc)"
      by (simp_all add: to_size_t_nonneg)
    show ?thesis using True adj land by (simp add: d r t jump_move_def)
  next
    case False
    then have "direction_loop b (int r) (int c) (d # ds) = direction_loop b (int r) (int c) ds"
      by (auto simp: d jump_ok_def Let_def split: option.splits)
    with False Cons show ?thesis by simp
  qed
qed

lemma first_jump_Nil: "first_jump b [] = None"
  by (simp add: first_jump_def)

lemma find_jump_ok_None: "find (jump_ok b cell) directions = None \<longleftrightarrow> \<not> list_ex (jump_ok b cell) directions"
  by (auto simp: find_None_iff list_ex_iff)

lemma first_jump_Cons:
  "first_jump b (cell # cells) =
     (if admits_jump b cell
      then map_option (jump_move cell) (find (jump_ok b cell) directions)
      else first_jump b cells)"
  by (simp add: first_jump_def)

lemma admits_jump_Some:
  "admits_jump b cell \<Longrightarrow> \<exists>d. find (jump_ok b cell) directions = Some d"
  using find_jump_ok_None [of b cell] by (auto simp: admits_jump_def)

lemma first_jump_None: "first_jump b cells = None \<longleftrightarrow> (\<forall>cell \<in> set cells. \<not> admits_jump b cell)"
proof (induction cells)
  case Nil
  then show ?case by (simp add: first_jump_Nil)
next
  case (Cons cell cells)
  then show ?case using admits_jump_Some [of b cell] by (auto simp: first_jump_Cons)
qed

lemma first_jump_append:
  "first_jump b (xs @ ys) = (case first_jump b xs of None \<Rightarrow> first_jump b ys | Some m \<Rightarrow> Some m)"
proof (induction xs)
  case Nil
  then show ?case by (simp add: first_jump_Nil)
next
  case (Cons x xs)
  then show ?case using admits_jump_Some [of b x] by (auto simp: first_jump_Cons)
qed

lemma wrapped_cell_less:
  "0 < n \<Longrightarrow> fst (wrapped_cell n offset row column) < n \<and> snd (wrapped_cell n offset row column) < n"
  by (simp add: wrapped_cell_def)

lemma column_loop_first:
  assumes "wf_board b" "0 < length b"
  shows "column_loop b offset row columns
           = Inr (first_jump b (map (wrapped_cell (length b) offset row) columns))"
proof (induction columns)
  case Nil
  then show ?case by (cases offset) (simp add: first_jump_Nil)
next
  case (Cons column columns)
  obtain ro co where off: "offset = (ro, co)" by (cases offset)
  obtain rr cc where cell: "wrapped_cell (length b) offset row column = (rr, cc)"
    by (cases "wrapped_cell (length b) offset row column")
  with wrapped_cell_less [OF assms(2), of offset row column]
  have lt: "rr < length b" "cc < length b" by simp_all
  have rr: "rr = ((row + ro) mod 2 ^ 64) mod length b"
    and cc: "cc = ((column + co) mod 2 ^ 64) mod length b"
    using cell by (simp_all add: wrapped_cell_def off)
  have get: "get_from_board b (int rr) (int cc) = Some (b ! rr ! cc)"
    using lt by (simp add: get_from_board_nat)
  have dl: "direction_loop b (int rr) (int cc) directions
              = map_option (jump_move (rr, cc)) (find (jump_ok b (rr, cc)) directions)"
    using assms(1) lt by (rule direction_loop_find)
  have step: "column_loop b offset row (column # columns) =
      (if b ! rr ! cc = OCCUPIED then
         (case direction_loop b (int rr) (int cc) directions of
            Some move \<Rightarrow> Inr (Some move)
          | None \<Rightarrow> column_loop b offset row columns)
       else column_loop b offset row columns)"
    unfolding off column_loop.simps Let_def rr [symmetric] cc [symmetric] get by simp
  show ?case
  proof (cases "admits_jump b (rr, cc)")
    case True
    then obtain d where d: "find (jump_ok b (rr, cc)) directions = Some d"
      using admits_jump_Some by blast
    from True have "b ! rr ! cc = OCCUPIED" using get by (simp add: admits_jump_def)
    with True d show ?thesis by (simp add: step dl first_jump_Cons cell)
  next
    case False
    then have "b ! rr ! cc \<noteq> OCCUPIED \<or> find (jump_ok b (rr, cc)) directions = None"
      using get by (auto simp: admits_jump_def find_jump_ok_None)
    then have "column_loop b offset row (column # columns) = column_loop b offset row columns"
      by (auto simp: step dl)
    with False Cons show ?thesis by (simp add: first_jump_Cons cell)
  qed
qed

lemma row_loop_first:
  assumes "wf_board b" "0 < length b"
  shows "row_loop b offset rows
           = Inr (first_jump b (concat (map (\<lambda>row.
               map (wrapped_cell (length b) offset row) [0..<length b]) rows)))"
proof (induction rows)
  case Nil
  then show ?case by (simp add: first_jump_Nil)
next
  case (Cons row rows)
  then show ?case
    by (simp add: column_loop_first [OF assms] first_jump_append split: option.splits)
qed

lemma get_move_first:
  assumes "wf_board b"
  shows "get_move b offset = Inr (first_jump b (wrapped_scan (length b) offset))"
proof (cases "length b = 0")
  case True
  then show ?thesis by (simp add: get_move_def wrapped_scan_def first_jump_Nil)
next
  case False
  then have "0 < length b" by simp
  from row_loop_first [OF assms this] show ?thesis
    by (simp add: get_move_def wrapped_scan_def)
qed

lemma wrapped_scan_rotated:
  assumes "fst offset + n \<le> 2 ^ 64" "snd offset + n \<le> 2 ^ 64"
  shows "wrapped_scan n offset = rotated_scan n offset"
proof -
  have "wrapped_cell n offset row column
          = ((row + fst offset) mod n, (column + snd offset) mod n)"
    if "row < n" "column < n" for row column
  proof -
    have "row + fst offset < 2 ^ 64" "column + snd offset < 2 ^ 64"
      using assms that by linarith+
    then show ?thesis by (simp add: wrapped_cell_def)
  qed
  note eq = this
  have "map (\<lambda>row. map (wrapped_cell n offset row) [0..<n]) [0..<n]
      = map (\<lambda>row. map (\<lambda>column.
          ((row + fst offset) mod n, (column + snd offset) mod n)) [0..<n]) [0..<n]"
  proof (rule map_cong [OF refl])
    fix row
    assume "row \<in> set [0..<n]"
    then have row: "row < n" by simp
    show "map (wrapped_cell n offset row) [0..<n]
            = map (\<lambda>column. ((row + fst offset) mod n, (column + snd offset) mod n)) [0..<n]"
    proof (rule map_cong [OF refl])
      fix column
      assume "column \<in> set [0..<n]"
      then have "column < n" by simp
      with row show "wrapped_cell n offset row column
                       = ((row + fst offset) mod n, (column + snd offset) mod n)"
        by (rule eq)
    qed
  qed
  then show ?thesis
    unfolding wrapped_scan_def rotated_scan_def by (rule arg_cong)
qed

lemma find_SomeD: "find P xs = Some x \<Longrightarrow> x \<in> set xs \<and> P x"
  by (induction xs) (auto split: if_splits)

lemma first_jump_Some:
  assumes "first_jump b cells = Some m"
  shows "\<exists>cell d. cell \<in> set cells \<and> d \<in> set directions \<and> admits_jump b cell \<and>
           jump_ok b cell d \<and> m = jump_move cell d"
proof -
  from assms obtain cell where c: "find (admits_jump b) cells = Some cell"
    and m: "map_option (jump_move cell) (find (jump_ok b cell) directions) = Some m"
    by (auto simp: first_jump_def split: option.splits)
  from m obtain d where d: "find (jump_ok b cell) directions = Some d" "m = jump_move cell d"
    by auto
  from find_SomeD [OF c] have "cell \<in> set cells" "admits_jump b cell"
    by simp_all
  moreover from find_SomeD [OF d(1)] have "d \<in> set directions" "jump_ok b cell d"
    by simp_all
  ultimately show ?thesis using d(2) by blast
qed

lemma valid_moveI:
  assumes "get_from_board b (int fr) (int fc) = Some OCCUPIED"
    and "get_from_board b (int tr) (int tc) = Some EMPTY"
    and "(fr = tr \<and> (fc + 2 = tc \<or> tc + 2 = fc)) \<or> (fc = tc \<and> (fr + 2 = tr \<or> tr + 2 = fr))"
    and "get_from_board b (int (midpoint fr tr)) (int (midpoint fc tc)) = Some OCCUPIED"
  shows "valid_move b \<lparr>move_from = (fr, fc), move_to = (tr, tc)\<rparr>"
  using assms by (simp add: valid_move_def)

lemma jump_valid:
  assumes "admits_jump b cell" "d \<in> set directions" "jump_ok b cell d"
  shows "valid_move b (jump_move cell d)"
proof -
  obtain r c where cell: "cell = (r, c)" by (cases cell)
  from assms(1) have occ: "get_from_board b (int r) (int c) = Some OCCUPIED"
    by (simp add: admits_jump_def cell)
  from assms(2) consider "d = (0, 1)" | "d = (1, 0)" | "d = (-1, 0)" | "d = (0, -1)"
    by (auto simp: directions_def)
  then show ?thesis
  proof cases
    case 1
    with assms(3) have adj: "get_from_board b (int r) (int c + 1) = Some OCCUPIED"
      and land: "get_from_board b (int r) (int c + 2) = Some EMPTY"
      by (simp_all add: jump_ok_def cell)
    have mv: "jump_move cell d = \<lparr>move_from = (r, c), move_to = (r, c + 2)\<rparr>"
      by (simp add: jump_move_def cell 1 nat_add_distrib)
    have "get_from_board b (int r) (int (c + 2)) = Some EMPTY"
    proof -
      have "int (c + 2) = int c + 2" by simp
      then show ?thesis using land by (simp only:)
    qed
    moreover have "get_from_board b (int (midpoint r r)) (int (midpoint c (c + 2))) = Some OCCUPIED"
    proof -
      have "midpoint r r = r" "midpoint c (c + 2) = c + 1" "int (c + 1) = int c + 1"
        by (simp_all add: midpoint_def)
      then show ?thesis using adj by (simp only:)
    qed
    ultimately show ?thesis unfolding mv using occ by (intro valid_moveI) simp_all
  next
    case 2
    with assms(3) have adj: "get_from_board b (int r + 1) (int c) = Some OCCUPIED"
      and land: "get_from_board b (int r + 2) (int c) = Some EMPTY"
      by (simp_all add: jump_ok_def cell)
    have mv: "jump_move cell d = \<lparr>move_from = (r, c), move_to = (r + 2, c)\<rparr>"
      by (simp add: jump_move_def cell 2 nat_add_distrib)
    have "get_from_board b (int (r + 2)) (int c) = Some EMPTY"
    proof -
      have "int (r + 2) = int r + 2" by simp
      then show ?thesis using land by (simp only:)
    qed
    moreover have "get_from_board b (int (midpoint r (r + 2))) (int (midpoint c c)) = Some OCCUPIED"
    proof -
      have "midpoint c c = c" "midpoint r (r + 2) = r + 1" "int (r + 1) = int r + 1"
        by (simp_all add: midpoint_def)
      then show ?thesis using adj by (simp only:)
    qed
    ultimately show ?thesis unfolding mv using occ by (intro valid_moveI) simp_all
  next
    case 3
    with assms(3) have adj: "get_from_board b (int r - 1) (int c) = Some OCCUPIED"
      and land: "get_from_board b (int r - 2) (int c) = Some EMPTY"
      by (simp_all add: jump_ok_def cell)
    from land have r2: "2 \<le> r" by (auto simp: get_from_board_Some)
    then have eq: "int r - 2 = int (r - 2)" "int r - 1 = int (r - 1)" by simp_all
    have mv: "jump_move cell d = \<lparr>move_from = (r, c), move_to = (r - 2, c)\<rparr>"
      using r2 by (simp add: jump_move_def cell 3 nat_diff_distrib)
    have "get_from_board b (int (r - 2)) (int c) = Some EMPTY" using land eq by (simp only:)
    moreover have "get_from_board b (int (midpoint r (r - 2))) (int (midpoint c c)) = Some OCCUPIED"
    proof -
      have "midpoint r (r - 2) = r - 1" "midpoint c c = c" using r2 by (simp_all add: midpoint_def)
      then show ?thesis using adj eq by (simp only:)
    qed
    ultimately show ?thesis unfolding mv using occ r2 by (intro valid_moveI) auto
  next
    case 4
    with assms(3) have adj: "get_from_board b (int r) (int c - 1) = Some OCCUPIED"
      and land: "get_from_board b (int r) (int c - 2) = Some EMPTY"
      by (simp_all add: jump_ok_def cell)
    from land have c2: "2 \<le> c" by (auto simp: get_from_board_Some)
    then have eq: "int c - 2 = int (c - 2)" "int c - 1 = int (c - 1)" by simp_all
    have mv: "jump_move cell d = \<lparr>move_from = (r, c), move_to = (r, c - 2)\<rparr>"
      using c2 by (simp add: jump_move_def cell 4 nat_diff_distrib)
    have "get_from_board b (int r) (int (c - 2)) = Some EMPTY" using land eq by (simp only:)
    moreover have "get_from_board b (int (midpoint r r)) (int (midpoint c (c - 2))) = Some OCCUPIED"
    proof -
      have "midpoint c (c - 2) = c - 1" "midpoint r r = r" using c2 by (simp_all add: midpoint_def)
      then show ?thesis using adj eq by (simp only:)
    qed
    ultimately show ?thesis unfolding mv using occ c2 by (intro valid_moveI) auto
  qed
qed

lemma get_move_Some_valid:
  assumes "wf_board b" "get_move b offset = Inr (Some m)"
  shows "valid_move b m"
proof -
  from assms have "first_jump b (wrapped_scan (length b) offset) = Some m"
    by (simp add: get_move_first)
  from first_jump_Some [OF this] show ?thesis using jump_valid by blast
qed

lemma rotate_image:
  fixes n k :: nat
  assumes "0 < n"
  shows "(\<lambda>x. (x + k) mod n) ` {0..<n} = {0..<n}"
proof
  show "(\<lambda>x. (x + k) mod n) ` {0..<n} \<subseteq> {0..<n}" using assms by auto
  show "{0..<n} \<subseteq> (\<lambda>x. (x + k) mod n) ` {0..<n}"
  proof
    fix y
    assume "y \<in> {0..<n}"
    then have y: "y < n" by simp
    let ?x = "(y + (n - k mod n)) mod n"
    have km: "k mod n < n" using assms by simp
    have "(?x + k) mod n = (y + (n - k mod n) + k) mod n"
      by (simp add: mod_add_left_eq)
    also have "\<dots> = (y + (n - k mod n) + k mod n) mod n"
      by (simp add: mod_add_right_eq)
    also have "y + (n - k mod n) + k mod n = y + n" using km by simp
    also have "(y + n) mod n = y" using y by simp
    finally have "(?x + k) mod n = y" .
    moreover have "?x \<in> {0..<n}" using assms by simp
    ultimately show "y \<in> (\<lambda>x. (x + k) mod n) ` {0..<n}" by (metis imageI)
  qed
qed

lemma set_rotated_scan:
  assumes "0 < n"
  shows "set (rotated_scan n offset) = {0..<n} \<times> {0..<n}"
proof -
  have "set (rotated_scan n offset)
          = (\<lambda>x. (x + fst offset) mod n) ` {0..<n} \<times> (\<lambda>x. (x + snd offset) mod n) ` {0..<n}"
    by (auto simp: rotated_scan_def)
  then show ?thesis by (simp add: rotate_image [OF assms])
qed

lemma find_move_spec_None:
  "find_move_spec b offset = None \<longleftrightarrow>
     (\<forall>r c. r < length b \<longrightarrow> c < length b \<longrightarrow> \<not> admits_jump b (r, c))"
proof (cases "length b = 0")
  case True
  then show ?thesis by (simp add: find_move_spec_def rotated_scan_def first_jump_Nil)
next
  case False
  then have "0 < length b" by simp
  from set_rotated_scan [OF this, of offset] show ?thesis
    by (auto simp: find_move_spec_def first_jump_None)
qed

section \<open>The move applier\<close>

lemma get_from_board_nat_Some:
  "get_from_board b (int r) (int c) = Some s \<longleftrightarrow> r < length b \<and> c < length b \<and> b ! r ! c = s"
  by (auto simp: get_from_board_nat)

lemma valid_move_facts:
  assumes "valid_move b m" "move_from m = (fr, fc)" "move_to m = (tr, tc)"
  shows "fr < length b" "fc < length b" "b ! fr ! fc = OCCUPIED"
    "tr < length b" "tc < length b" "b ! tr ! tc = EMPTY"
    "midpoint fr tr < length b" "midpoint fc tc < length b"
    "b ! midpoint fr tr ! midpoint fc tc = OCCUPIED"
    "(fr, fc) \<noteq> (tr, tc)" "(midpoint fr tr, midpoint fc tc) \<noteq> (fr, fc)"
    "(midpoint fr tr, midpoint fc tc) \<noteq> (tr, tc)"
proof -
  from assms have occ: "get_from_board b (int fr) (int fc) = Some OCCUPIED"
    and emp: "get_from_board b (int tr) (int tc) = Some EMPTY"
    and geo: "(fr = tr \<and> (fc + 2 = tc \<or> tc + 2 = fc)) \<or> (fc = tc \<and> (fr + 2 = tr \<or> tr + 2 = fr))"
    and mid: "get_from_board b (int (midpoint fr tr)) (int (midpoint fc tc)) = Some OCCUPIED"
    by (simp_all add: valid_move_def)
  from occ show "fr < length b" "fc < length b" "b ! fr ! fc = OCCUPIED"
    by (simp_all add: get_from_board_nat_Some)
  from emp show e: "tr < length b" "tc < length b" "b ! tr ! tc = EMPTY"
    by (simp_all add: get_from_board_nat_Some)
  from mid show m: "midpoint fr tr < length b" "midpoint fc tc < length b"
    "b ! midpoint fr tr ! midpoint fc tc = OCCUPIED"
    by (simp_all add: get_from_board_nat_Some)
  from geo show "(fr, fc) \<noteq> (tr, tc)" by auto
  from geo show "(midpoint fr tr, midpoint fc tc) \<noteq> (fr, fc)"
    by (auto simp: midpoint_def split: if_splits)
  from e(3) m(3) show "(midpoint fr tr, midpoint fc tc) \<noteq> (tr, tc)" by auto
qed

lemma do_move_valid:
  assumes "square b" "valid_move b m"
  shows "do_move b m = Inr (after_jump b m)"
proof -
  obtain fr fc where mf: "move_from m = (fr, fc)" by (cases "move_from m")
  obtain tr tc where mt: "move_to m = (tr, tc)" by (cases "move_to m")
  note f = valid_move_facts [OF assms(2) mf mt]
  let ?mr = "midpoint fr tr" and ?mc = "midpoint fc tc"
  let ?b1 = "put b fr fc EMPTY"
  let ?b2 = "put ?b1 tr tc OCCUPIED"
  have ib0: "in_bounds b fr fc" using assms(1) f(1,2) by (simp add: in_bounds_square)
  have sq1: "square ?b1" using assms(1) by (rule square_put)
  have ib1: "in_bounds ?b1 tr tc" using sq1 f(4,5) by (simp add: in_bounds_square)
  have sq2: "square ?b2" using sq1 by (rule square_put)
  have ib2: "in_bounds ?b2 ?mr ?mc" using sq2 f(7,8) by (simp add: in_bounds_square)
  have v1: "?b1 ! fr ! fc = EMPTY" by (simp add: nth_put [OF ib0])
  have v2: "?b2 ! ?mr ! ?mc = OCCUPIED"
    using f(9,11,12) by (simp add: nth_put [OF ib1] nth_put [OF ib0])
  show ?thesis
    using ib0 ib1 ib2 v1 v2 f(3) by (simp add: do_move_def after_jump_def mf mt)
qed

lemma after_jump_cells:
  assumes "square b" "valid_move b m" "move_from m = (fr, fc)" "move_to m = (tr, tc)"
  shows "after_jump b m ! r ! c =
           (if (r, c) = (fr, fc) then EMPTY
            else if (r, c) = (tr, tc) then OCCUPIED
            else if (r, c) = (midpoint fr tr, midpoint fc tc) then EMPTY
            else b ! r ! c)"
proof -
  note f = valid_move_facts [OF assms(2,3,4)]
  let ?mr = "midpoint fr tr" and ?mc = "midpoint fc tc"
  let ?b1 = "put b fr fc EMPTY"
  let ?b2 = "put ?b1 tr tc OCCUPIED"
  have ib0: "in_bounds b fr fc" using assms(1) f(1,2) by (simp add: in_bounds_square)
  have sq1: "square ?b1" using assms(1) by (rule square_put)
  have ib1: "in_bounds ?b1 tr tc" using sq1 f(4,5) by (simp add: in_bounds_square)
  have sq2: "square ?b2" using sq1 by (rule square_put)
  have ib2: "in_bounds ?b2 ?mr ?mc"
    using sq2 f(7,8) by (simp add: in_bounds_square)
  have s1: "?b1 ! r ! c = (if (r, c) = (fr, fc) then EMPTY else b ! r ! c)"
    using nth_put [OF ib0, of EMPTY r c] by simp
  have s2: "?b2 ! r ! c = (if (r, c) = (tr, tc) then OCCUPIED else ?b1 ! r ! c)"
    using nth_put [OF ib1, of OCCUPIED r c] by simp
  have s3: "put ?b2 ?mr ?mc EMPTY ! r ! c = (if (r, c) = (?mr, ?mc) then EMPTY else ?b2 ! r ! c)"
    using nth_put [OF ib2, of EMPTY r c] by simp
  have aj: "after_jump b m = put ?b2 ?mr ?mc EMPTY"
    by (simp add: after_jump_def assms(3,4))
  consider "(r, c) = (fr, fc)" | "(r, c) = (tr, tc)" | "(r, c) = (?mr, ?mc)"
    | "(r, c) \<noteq> (fr, fc)" "(r, c) \<noteq> (tr, tc)" "(r, c) \<noteq> (?mr, ?mc)"
    by blast
  then show ?thesis
  proof cases
    case 1
    with f(10,11) have "(r, c) \<noteq> (tr, tc)" "(r, c) \<noteq> (?mr, ?mc)" by metis+
    with 1 show ?thesis unfolding aj s3 s2 s1 by (simp only: if_True if_False)
  next
    case 2
    with f(10,12) have "(r, c) \<noteq> (fr, fc)" "(r, c) \<noteq> (?mr, ?mc)" by metis+
    with 2 show ?thesis unfolding aj s3 s2 s1 by (simp only: if_True if_False)
  next
    case 3
    with f(11,12) have "(r, c) \<noteq> (fr, fc)" "(r, c) \<noteq> (tr, tc)" by metis+
    with 3 show ?thesis unfolding aj s3 s2 s1 by (simp only: if_True if_False)
  next
    case 4
    then show ?thesis unfolding aj s3 s2 s1 by (simp only: if_False)
  qed
qed

lemma after_jump_square: "square b \<Longrightarrow> square (after_jump b m)"
  by (cases "move_from m"; cases "move_to m") (simp add: after_jump_def square_put)

lemma after_jump_length: "length (after_jump b m) = length b"
  by (cases "move_from m"; cases "move_to m") (simp add: after_jump_def)

lemma after_jump_count:
  assumes "square b" "valid_move b m"
  shows "count_state OCCUPIED (after_jump b m) + 1 = count_state OCCUPIED b"
proof -
  obtain fr fc where mf: "move_from m = (fr, fc)" by (cases "move_from m")
  obtain tr tc where mt: "move_to m = (tr, tc)" by (cases "move_to m")
  note f = valid_move_facts [OF assms(2) mf mt]
  let ?mr = "midpoint fr tr" and ?mc = "midpoint fc tc"
  let ?b1 = "put b fr fc EMPTY"
  let ?b2 = "put ?b1 tr tc OCCUPIED"
  have ib0: "in_bounds b fr fc" using assms(1) f(1,2) by (simp add: in_bounds_square)
  have sq1: "square ?b1" using assms(1) by (rule square_put)
  have ib1: "in_bounds ?b1 tr tc" using sq1 f(4,5) by (simp add: in_bounds_square)
  have sq2: "square ?b2" using sq1 by (rule square_put)
  have ib2: "in_bounds ?b2 ?mr ?mc" using sq2 f(7,8) by (simp add: in_bounds_square)
  have v1: "?b1 ! tr ! tc = EMPTY" using f(6,10) by (auto simp: nth_put [OF ib0])
  have v2: "?b2 ! ?mr ! ?mc = OCCUPIED"
    using f(9,11,12) by (simp add: nth_put [OF ib1] nth_put [OF ib0])
  have c1: "count_state OCCUPIED ?b1 + 1 = count_state OCCUPIED b"
    using count_state_put [OF ib0, of OCCUPIED EMPTY] f(3) by simp
  have c2: "count_state OCCUPIED ?b2 = count_state OCCUPIED ?b1 + 1"
    using count_state_put [OF ib1, of OCCUPIED OCCUPIED] v1 by simp
  have c3: "count_state OCCUPIED (put ?b2 ?mr ?mc EMPTY) + 1 = count_state OCCUPIED ?b2"
    using count_state_put [OF ib2, of OCCUPIED EMPTY] v2 by simp
  from c1 c2 c3 show ?thesis by (simp add: after_jump_def mf mt)
qed

section \<open>Evaluations\<close>

text \<open>At \<open>N = 1\<close> the source indexes the array at \<open>size - 2\<close>, which wraps around.\<close>

lemma make_board_1: "make_board 1 = Inl OutOfBounds"
  by (simp add: make_board_def size_t_sub_def write_cell_def put_def in_bounds_def)

text \<open>Evaluations on the board of size 9, used by the witnesses.\<close>

lemma wf_cross9: "wf_board cross9"
  by (simp add: wf_board_def square_def cross9_def)

lemma get_move_cross9_5_7:
  "get_move cross9 (5, 7) = Inr (Some \<lparr>move_from = (6, 4), move_to = (4, 4)\<rparr>)"
  by (simp add: get_move_def cross9_def get_from_board_def directions_def to_size_t_def)

lemma valid_move_cross9:
  "valid_move cross9 \<lparr>move_from = (6, 4), move_to = (4, 4)\<rparr>"
  by (simp add: valid_move_def midpoint_def get_from_board_def cross9_def)

lemma square_cross9: "square cross9"
  by (simp add: square_def cross9_def)

lemma make_board_9: "make_board 9 = Inr cross9"
  by (simp add: make_board_def size_t_sub_def write_cell_def put_def in_bounds_def cross9_def
      replicate_numeral list_update_numeral)

lemma get_score_cross9: "get_score cross9 = 68"
  by (simp add: get_score_def cross9_def)

section \<open>The invariant of the simulation\<close>

lemma wf_board_after_jump: "wf_board b \<Longrightarrow> wf_board (after_jump b m)"
  by (simp add: wf_board_def after_jump_square after_jump_length)

lemma get_move_total:
  assumes "wf_board b"
  shows "\<exists>pm. get_move b offset = Inr pm \<and>
           (case pm of None \<Rightarrow> True | Some move \<Rightarrow> valid_move b move)"
proof -
  let ?pm = "first_jump b (wrapped_scan (length b) offset)"
  have g: "get_move b offset = Inr ?pm" using assms by (rule get_move_first)
  have "valid_move b move" if "?pm = Some move" for move
    using get_move_Some_valid [OF assms] g that by simp
  with g show ?thesis by (auto split: option.splits)
qed

lemma loop_body_inv:
  assumes "sim_inv st" "sim_possible_move st = Some move"
  shows "\<exists>st'. loop_body rand st move = Inr st' \<and> sim_inv st' \<and>
           sim_score st' = sim_score st - 1 \<and>
           sim_move_history st' = sim_move_history st @ [move] \<and> 0 < sim_score st"
proof -
  let ?b = "sim_board st"
  from assms have wf: "wf_board ?b" and v: "valid_move ?b move"
    and r: "reachable board_size ?b"
    and gm: "\<exists>offset. get_move ?b offset = Inr (Some move)"
    and sc: "sim_score st = get_score ?b"
    and len: "int (length (sim_move_history st)) + sim_score st = int board_size * int board_size - 13"
    by (simp_all add: sim_inv_def)
  from wf have sq: "square ?b" by (simp add: wf_board_def)
  let ?b' = "after_jump ?b move"
  have dm: "do_move ?b move = Inr ?b'" using sq v by (rule do_move_valid)
  have wf': "wf_board ?b'" using wf by (rule wf_board_after_jump)
  from gm dm r have r': "reachable board_size ?b'" by (auto intro: reachable.step)
  obtain rx g1 where r1: "rand (sim_gen st) = (rx, g1)" by (cases "rand (sim_gen st)")
  obtain ry g2 where r2: "rand g1 = (ry, g2)" by (cases "rand g1")
  from get_move_total [OF wf', of "(rx, ry)"] obtain pm where
    pm: "get_move ?b' (rx, ry) = Inr pm"
        "case pm of None \<Rightarrow> True | Some move \<Rightarrow> valid_move ?b' move" by blast
  let ?st' = "\<lparr>sim_gen = g2, sim_board = ?b', sim_possible_move = pm,
               sim_score = sim_score st - 1,
               sim_move_history = sim_move_history st @ [move]\<rparr>"
  have lb: "loop_body rand st move = Inr ?st'"
    by (simp add: loop_body_def dm r1 r2 pm(1))
  have cnt: "count_state OCCUPIED ?b' + 1 = count_state OCCUPIED ?b"
    using sq v by (rule after_jump_count)
  then have icnt: "int (count_state OCCUPIED ?b') + 1 = int (count_state OCCUPIED ?b)"
    by linarith
  then have sc': "get_score ?b' = get_score ?b - 1"
    by (simp add: get_score_count)
  from icnt have pos: "0 < get_score ?b" unfolding get_score_count by linarith
  have "sim_inv ?st'"
    using wf' r' pm sc sc' len by (auto simp: sim_inv_def split: option.splits)
  with lb pos sc show ?thesis by simp
qed

lemma sim_loop_inv:
  "sim_inv st \<Longrightarrow>
     \<exists>st'. sim_loop rand st = Inr st' \<and> sim_inv st' \<and> sim_possible_move st' = None"
proof (induction rand st rule: sim_loop.induct)
  case (1 rand st)
  show ?case
  proof (cases "sim_possible_move st")
    case None
    with "1.prems" show ?thesis by simp
  next
    case (Some move)
    from loop_body_inv [OF "1.prems" Some, of rand] obtain st1 where
      lb: "loop_body rand st move = Inr st1" and inv1: "sim_inv st1" by blast
    from "1.IH" [OF Some lb inv1] obtain st' where
      "sim_loop rand st1 = Inr st'" "sim_inv st'" "sim_possible_move st' = None" by blast
    with Some lb show ?thesis by simp
  qed
qed

lemma sim_steps_inv:
  "sim_inv st \<Longrightarrow> \<exists>st'. sim_steps rand k st = Inr st' \<and> sim_inv st'"
proof (induction k arbitrary: st)
  case 0
  then show ?case by simp
next
  case (Suc k)
  show ?case
  proof (cases "sim_possible_move st")
    case None
    with Suc.prems show ?thesis by simp
  next
    case (Some move)
    from loop_body_inv [OF Suc.prems Some, of rand] obtain st1 where
      lb: "loop_body rand st move = Inr st1" and inv1: "sim_inv st1" by blast
    from Suc.IH [OF inv1] obtain st' where "sim_steps rand k st1 = Inr st'" "sim_inv st'"
      by blast
    with Some lb show ?thesis by simp
  qed
qed

lemma sim_steps_enough:
  "sim_inv st \<Longrightarrow> sim_score st \<le> int k \<Longrightarrow> sim_steps rand k st = sim_loop rand st"
proof (induction k arbitrary: st)
  case 0
  show ?case
  proof (cases "sim_possible_move st")
    case None
    then show ?thesis by simp
  next
    case (Some move)
    from loop_body_inv [OF "0.prems"(1) Some, of rand] have "0 < sim_score st" by blast
    with "0.prems"(2) show ?thesis by simp
  qed
next
  case (Suc k)
  show ?case
  proof (cases "sim_possible_move st")
    case None
    then show ?thesis by simp
  next
    case (Some move)
    from loop_body_inv [OF Suc.prems(1) Some, of rand] obtain st1 where
      lb: "loop_body rand st move = Inr st1" and inv1: "sim_inv st1"
      and sc: "sim_score st1 = sim_score st - 1" by blast
    from sc Suc.prems(2) have "sim_score st1 \<le> int k" by simp
    from Suc.IH [OF inv1 this] Some lb show ?thesis by simp
  qed
qed

lemma sim_start_inv:
  "\<exists>st. sim_start srand rand seed g0 = Inr st \<and> sim_inv st \<and>
        sim_score st = int board_size * int board_size - 13 \<and> sim_move_history st = []"
proof -
  obtain rx g1 where r1: "rand (srand seed) = (rx, g1)" by (cases "rand (srand seed)")
  obtain ry g2 where r2: "rand g1 = (ry, g2)" by (cases "rand g1")
  from get_move_total [OF wf_cross9, of "(rx, ry)"] obtain pm where
    pm: "get_move cross9 (rx, ry) = Inr pm"
        "case pm of None \<Rightarrow> True | Some move \<Rightarrow> valid_move cross9 move" by blast
  let ?st = "\<lparr>sim_gen = g2, sim_board = cross9, sim_possible_move = pm,
              sim_score = int board_size * int board_size - 13, sim_move_history = []\<rparr>"
  have s: "sim_start srand rand seed g0 = Inr ?st"
    by (simp add: sim_start_def board_size_def make_board_9 r1 r2 pm(1))
  have "reachable board_size cross9"
    by (rule reachable.start) (simp add: board_size_def make_board_9)
  then have "sim_inv ?st"
    using wf_cross9 pm get_score_cross9
    by (auto simp: sim_inv_def board_size_def split: option.splits)
  with s show ?thesis by simp
qed

lemma make_board_Inr:
  assumes "make_board sz = Inr b" "sz < 2 ^ 64"
  shows "length b = sz \<and> square b"
proof -
  from assms(1) have odd: "odd sz"
    by (auto simp: make_board_def odd_iff_mod_2_eq_one split: if_splits)
  have "sz \<noteq> 1" using assms(1) make_board_1 by auto
  with odd have "3 \<le> sz" by (cases sz rule: nat.exhaust) (auto elim: oddE)
  from make_board_result [OF odd this assms(2)] assms(1) show ?thesis by auto
qed

lemma after_jump_unusable:
  assumes "square b" "valid_move b m"
  shows "get_from_board (after_jump b m) r c = Some UNUSABLE
           \<longleftrightarrow> get_from_board b r c = Some UNUSABLE"
proof -
  obtain fr fc where mf: "move_from m = (fr, fc)" by (cases "move_from m")
  obtain tr tc where mt: "move_to m = (tr, tc)" by (cases "move_to m")
  note f = valid_move_facts [OF assms(2) mf mt]
  note cells = after_jump_cells [OF assms mf mt]
  have "after_jump b m ! i ! j = UNUSABLE \<longleftrightarrow> b ! i ! j = UNUSABLE" for i j
    using f(3,6,9) by (auto simp: cells)
  then show ?thesis
    by (simp add: get_from_board_def after_jump_length)
qed

lemma reachable_unusable:
  assumes "sz < 2 ^ 31" "make_board sz = Inr b0" "reachable sz b"
  shows "wf_board b \<and> length b = sz \<and>
         (\<forall>r c. get_from_board b r c = Some UNUSABLE \<longleftrightarrow> get_from_board b0 r c = Some UNUSABLE)"
  using assms(3)
proof (induction rule: reachable.induct)
  case (start board0)
  from assms(1) have "sz < 2 ^ 64"
    by (rule less_trans) simp
  with start make_board_Inr [of sz board0] assms(1,2) show ?case
    by (simp add: wf_board_def)
next
  case (step b offset move b')
  then have wf: "wf_board b" and len: "length b = sz"
    and un: "\<forall>r c. get_from_board b r c = Some UNUSABLE \<longleftrightarrow> get_from_board b0 r c = Some UNUSABLE"
    by simp_all
  from wf have sq: "square b" by (simp add: wf_board_def)
  from get_move_Some_valid [OF wf step.hyps(2)] have v: "valid_move b move" .
  from do_move_valid [OF sq v] step.hyps(3) have b': "b' = after_jump b move" by simp
  show ?case
    using wf len un after_jump_unusable [OF sq v]
    by (simp add: b' wf_board_after_jump after_jump_length)
qed

section \<open>The generator enters a run through its draws only\<close>

lemma loop_body_same_draws:
  assumes "same_draws R rand rand'" "R (sim_gen st) (sim_gen st')" "observable st = observable st'"
  shows "(\<exists>e. loop_body rand st move = Inl e \<and> loop_body rand' st' move = Inl e) \<or>
         (\<exists>st1 st1'. loop_body rand st move = Inr st1 \<and> loop_body rand' st' move = Inr st1' \<and>
            R (sim_gen st1) (sim_gen st1') \<and> observable st1 = observable st1')"
proof -
  from assms(3) have b: "sim_board st' = sim_board st" and sc: "sim_score st' = sim_score st"
    and h: "sim_move_history st' = sim_move_history st"
    by (simp_all add: observable_def)
  show ?thesis
  proof (cases "do_move (sim_board st) move")
    case (Inl e)
    then show ?thesis by (simp add: loop_body_def b)
  next
    case (Inr board')
    obtain rx g1 where r1: "rand (sim_gen st) = (rx, g1)" by (cases "rand (sim_gen st)")
    obtain rx' h1 where r1': "rand' (sim_gen st') = (rx', h1)" by (cases "rand' (sim_gen st')")
    from assms(1,2) r1 r1' have x: "rx' = rx" and R1: "R g1 h1"
      by (auto simp: same_draws_def dest!: spec [of _ "sim_gen st"] spec [of _ "sim_gen st'"])
    obtain ry g2 where r2: "rand g1 = (ry, g2)" by (cases "rand g1")
    obtain ry' h2 where r2': "rand' h1 = (ry', h2)" by (cases "rand' h1")
    from assms(1) R1 r2 r2' have y: "ry' = ry" and R2: "R g2 h2"
      by (auto simp: same_draws_def dest!: spec [of _ g1] spec [of _ h1])
    show ?thesis
    proof (cases "get_move board' (rx, ry)")
      case (Inl e)
      with Inr show ?thesis by (simp add: loop_body_def b r1 r1' r2 r2' x y)
    next
      case gm: (Inr pm)
      with Inr R2 show ?thesis
        by (simp add: loop_body_def b sc h r1 r1' r2 r2' x y observable_def)
    qed
  qed
qed

lemma sim_loop_same_draws:
  "same_draws R rand rand' \<Longrightarrow> R (sim_gen st) (sim_gen st') \<Longrightarrow>
   observable st = observable st' \<Longrightarrow>
   outcome (sim_loop rand st) = outcome (sim_loop rand' st')"
proof (induction rand st arbitrary: st' rule: sim_loop.induct)
  case (1 rand st)
  from "1.prems"(3) have pm: "sim_possible_move st' = sim_possible_move st"
    by (simp add: observable_def)
  show ?case
  proof (cases "sim_possible_move st")
    case None
    with pm "1.prems"(3) show ?thesis by (simp add: outcome_def)
  next
    case (Some move)
    note alt = loop_body_same_draws [OF "1.prems", of move]
    show ?thesis
    proof (cases "loop_body rand st move")
      case (Inl e)
      with alt have "loop_body rand' st' move = Inl e" by auto
      with Inl Some pm show ?thesis by (simp add: outcome_def)
    next
      case (Inr st1)
      with alt obtain st1' where lb': "loop_body rand' st' move = Inr st1'"
        and rel: "R (sim_gen st1) (sim_gen st1')" "observable st1 = observable st1'"
        by auto
      from "1.IH" [OF Some Inr "1.prems"(1) rel] Some pm Inr lb' show ?thesis by simp
    qed
  qed
qed

lemma simulate_same_draws:
  assumes "same_draws R rand rand'" "R (srand seed) (srand' seed')"
  shows "outcome (simulate srand rand seed g0) = outcome (simulate srand' rand' seed' h0)"
proof -
  obtain rx g1 where r1: "rand (srand seed) = (rx, g1)" by (cases "rand (srand seed)")
  obtain rx' h1 where r1': "rand' (srand' seed') = (rx', h1)" by (cases "rand' (srand' seed')")
  from assms r1 r1' have x: "rx' = rx" and R1: "R g1 h1"
    by (auto simp: same_draws_def dest!: spec [of _ "srand seed"] spec [of _ "srand' seed'"])
  obtain ry g2 where r2: "rand g1 = (ry, g2)" by (cases "rand g1")
  obtain ry' h2 where r2': "rand' h1 = (ry', h2)" by (cases "rand' h1")
  from assms(1) R1 r2 r2' have y: "ry' = ry" and R2: "R g2 h2"
    by (auto simp: same_draws_def dest!: spec [of _ g1] spec [of _ h1])
  show ?thesis
  proof (cases "make_board board_size")
    case (Inl e)
    then show ?thesis by (simp add: simulate_def sim_start_def outcome_def)
  next
    case (Inr board0)
    show ?thesis
    proof (cases "get_move board0 (rx, ry)")
      case (Inl e)
      with Inr show ?thesis
        by (simp add: simulate_def sim_start_def outcome_def r1 r1' r2 r2' x y)
    next
      case gm: (Inr pm)
      let ?st = "\<lparr>sim_gen = g2, sim_board = board0, sim_possible_move = pm,
                  sim_score = int board_size * int board_size - 13, sim_move_history = []\<rparr>"
      let ?st' = "\<lparr>sim_gen = h2, sim_board = board0, sim_possible_move = pm,
                  sim_score = int board_size * int board_size - 13, sim_move_history = []\<rparr>"
      have "outcome (sim_loop rand ?st) = outcome (sim_loop rand' ?st')"
        by (rule sim_loop_same_draws [OF assms(1)]) (simp_all add: R2 observable_def)
      with Inr gm show ?thesis
        by (simp add: simulate_def sim_start_def r1 r1' r2 r2' x y)
    qed
  qed
qed

lemma run_simulation_outcome:
  "run_simulation srand rand seed g0 =
     (case outcome (simulate srand rand seed g0) of
        Inl e \<Rightarrow> Inl e
      | Inr (b, pm, sc, h) \<Rightarrow> Inr sc)"
  by (simp add: run_simulation_def outcome_def observable_def split: sum.splits)

section \<open>Claims about the initial board\<close>

text \<open>
  C3, as amended. For every odd \<open>N\<close> of at least 5, \<^verbatim>\<open>make_board<N>\<close> returns a board
  with exactly one \<open>EMPTY\<close> cell, which is the centre \<open>(N div 2, N div 2)\<close>, exactly 12
  \<open>UNUSABLE\<close> cells and exactly \<open>N * N - 13\<close> \<open>OCCUPIED\<close> cells, so that
  \<open>get_score\<close> of it is \<open>N * N - 13\<close>. The bound \<open>N < 2 ^ 64\<close> says that \<open>N\<close> is a
  \<^verbatim>\<open>size_t\<close>.
\<close>

theorem make_board_counts:
  assumes "odd n" "5 \<le> n" "n < 2 ^ 64"
  shows "\<exists>board. make_board n = Inr board \<and>
           count_state EMPTY board = 1 \<and>
           get_from_board board (int (n div 2)) (int (n div 2)) = Some EMPTY \<and>
           count_state UNUSABLE board = 12 \<and>
           count_state OCCUPIED board + 13 = n * n \<and>
           get_score board = int (n * n) - 13"
proof -
  from make_board_count_ok [OF assms] obtain b where
    b: "make_board n = Inr b" "square b" "length b = n" "b ! (n div 2) ! (n div 2) = EMPTY"
       "count_state EMPTY b = 1" "count_state UNUSABLE b = 12"
       "count_state OCCUPIED b + 13 = n * n" by blast
  have "n div 2 < n" using assms(2) by simp
  then have "get_from_board b (int (n div 2)) (int (n div 2)) = Some EMPTY"
    using b(3,4) by (simp add: get_from_board_nat)
  moreover have "get_score b = int (n * n) - 13"
    using arg_cong [OF b(7), of int] by (simp add: get_score_count)
  ultimately show ?thesis using b by blast
qed

theorem make_board_counts_witness:
  "odd (9::nat) \<and> (5::nat) \<le> 9 \<and> (9::nat) < 2 ^ 64 \<and>
   (\<exists>board. make_board 9 = Inr board \<and>
      count_state EMPTY board = 1 \<and>
      get_from_board board 4 4 = Some EMPTY \<and>
      count_state UNUSABLE board = 12 \<and>
      count_state OCCUPIED board = 68 \<and>
      get_score board = 68)"
  using make_board_counts [of 9] by simp

text \<open>
  C3 as stated fails at \<open>N = 3\<close>, an odd size that the \<^verbatim>\<open>static_assert\<close> accepts: the
  cut-outs of the four corners overlap, and the board has 8 \<open>UNUSABLE\<close> cells and no
  \<open>OCCUPIED\<close> cell.
\<close>

theorem make_board_counts_counterexample:
  "odd (3::nat) \<and> make_board 3 = Inr cross3 \<and> count_state UNUSABLE cross3 = 8 \<and>
   count_state OCCUPIED cross3 = 0 \<and> get_score cross3 = 0"
  by (simp add: make_board_def size_t_sub_def write_cell_def put_def in_bounds_def cross3_def
      count_state_def get_score_def replicate_numeral list_update_numeral)

text \<open>
  C4, as amended. On the board that \<^verbatim>\<open>make_board<N>\<close> returns (\<open>N\<close> odd, at least 3),
  the \<open>UNUSABLE\<close> cells are those of \<open>corner_cut\<close>: in rows \<open>0\<close> and \<open>N - 1\<close> the
  columns \<open>0\<close>, \<open>1\<close>, \<open>N - 2\<close>, \<open>N - 1\<close>, and in rows \<open>1\<close> and \<open>N - 2\<close> the columns
  \<open>0\<close> and \<open>N - 1\<close>; the centre is \<open>EMPTY\<close>; every other cell is \<open>OCCUPIED\<close>, and
  among them, for \<open>N\<close> of at least 5, the inner cell of each 2 by 2 corner block.
\<close>

theorem make_board_cells:
  assumes "odd n" "3 \<le> n" "n < 2 ^ 64"
  shows "\<exists>board. make_board n = Inr board \<and> length board = n \<and> square board \<and>
           (\<forall>r c. r < n \<longrightarrow> c < n \<longrightarrow>
              get_from_board board (int r) (int c) = Some (initial_cell n r c)) \<and>
           (5 \<le> n \<longrightarrow>
              get_from_board board 1 1 = Some OCCUPIED \<and>
              get_from_board board 1 (int (n - 2)) = Some OCCUPIED \<and>
              get_from_board board (int (n - 2)) 1 = Some OCCUPIED \<and>
              get_from_board board (int (n - 2)) (int (n - 2)) = Some OCCUPIED)"
proof -
  from make_board_result [OF assms] obtain b where
    b: "make_board n = Inr b" "length b = n" "square b"
       "\<forall>r c. r < n \<longrightarrow> c < n \<longrightarrow> b ! r ! c = initial_cell n r c" by blast
  have cells: "get_from_board b (int r) (int c) = Some (initial_cell n r c)"
    if "r < n" "c < n" for r c
    using that b(2,4) by (simp add: get_from_board_nat)
  have inner: "initial_cell n 1 1 = OCCUPIED" "initial_cell n 1 (n - 2) = OCCUPIED"
      "initial_cell n (n - 2) 1 = OCCUPIED" "initial_cell n (n - 2) (n - 2) = OCCUPIED"
    if "5 \<le> n"
    using that by (auto simp: initial_cell_def corner_cut_def)
  have "get_from_board b 1 1 = Some OCCUPIED \<and>
        get_from_board b 1 (int (n - 2)) = Some OCCUPIED \<and>
        get_from_board b (int (n - 2)) 1 = Some OCCUPIED \<and>
        get_from_board b (int (n - 2)) (int (n - 2)) = Some OCCUPIED" if "5 \<le> n"
    using that cells [of 1 1] cells [of 1 "n - 2"] cells [of "n - 2" 1]
      cells [of "n - 2" "n - 2"] inner [OF that]
    by simp
  with b cells show ?thesis by blast
qed

theorem make_board_cells_witness:
  "odd (9::nat) \<and> (3::nat) \<le> 9 \<and> (9::nat) < 2 ^ 64 \<and>
   (\<exists>board. make_board 9 = Inr board \<and> length board = 9 \<and> square board \<and>
      get_from_board board 0 1 = Some UNUSABLE \<and>
      get_from_board board 1 0 = Some UNUSABLE \<and>
      get_from_board board 4 4 = Some EMPTY \<and>
      get_from_board board 1 1 = Some OCCUPIED \<and>
      get_from_board board 7 7 = Some OCCUPIED)"
proof -
  from make_board_cells [of 9] obtain board where
    b: "make_board 9 = Inr board" "length board = 9" "square board"
       "\<forall>r c. r < 9 \<longrightarrow> c < 9 \<longrightarrow>
          get_from_board board (int r) (int c) = Some (initial_cell 9 r c)"
    by auto
  have c: "get_from_board board (int r) (int c) = Some (initial_cell 9 r c)"
    if "r < 9" "c < 9" for r c
    using b(4) that by blast
  from c [of 0 1] c [of 1 0] c [of 4 4] c [of 1 1] c [of 7 7]
  have "get_from_board board 0 1 = Some UNUSABLE \<and>
      get_from_board board 1 0 = Some UNUSABLE \<and>
      get_from_board board 4 4 = Some EMPTY \<and>
      get_from_board board 1 1 = Some OCCUPIED \<and>
      get_from_board board 7 7 = Some OCCUPIED"
    by (simp add: initial_cell_def corner_cut_def)
  with b(1,2,3) show ?thesis by auto
qed

text \<open>
  C4 as stated fails: the inner cell \<open>(1, 1)\<close> of the top left 2 by 2 block of the
  board of size 9 is \<open>OCCUPIED\<close>, not \<open>UNUSABLE\<close>.
\<close>

theorem make_board_cells_counterexample:
  "make_board 9 = Inr cross9 \<and> get_from_board cross9 1 1 = Some OCCUPIED"
  by (simp add: make_board_def size_t_sub_def write_cell_def put_def in_bounds_def cross9_def
      get_from_board_def replicate_numeral list_update_numeral)

section \<open>Claims about the move finder\<close>

text \<open>
  C1, as amended. For every board (square, of a size that fits an \<^verbatim>\<open>int\<close>) and every
  offset pair whose components stay below \<open>2 ^ 64\<close> after the size is added (every
  value that \<^verbatim>\<open>rand\<close> returns does), \<^verbatim>\<open>get_move\<close> returns without failing, and its
  result is the move of the specification: cells are scanned in row-major order rotated by the
  offset (\<open>rotated_scan\<close>: row \<open>(row + offset_row) mod size\<close>, column
  \<open>(column + offset_column) mod size\<close>), the jump starts at the first \<open>OCCUPIED\<close>
  cell of that order that admits one and goes in the first direction of
  \<open>(0, 1), (1, 0), (-1, 0), (0, -1)\<close> whose adjacent cell is \<open>OCCUPIED\<close> and whose
  landing cell two steps away is \<open>EMPTY\<close>; the result is "no move" exactly when no cell
  of the board admits a jump.
\<close>

theorem get_move_scan:
  assumes "wf_board board"
    and "fst offset + length board \<le> 2 ^ 64"
    and "snd offset + length board \<le> 2 ^ 64"
  shows "get_move board offset = Inr (find_move_spec board offset) \<and>
         (get_move board offset = Inr None \<longleftrightarrow>
            (\<forall>r c. r < length board \<longrightarrow> c < length board \<longrightarrow> \<not> admits_jump board (r, c)))"
proof -
  have "get_move board offset = Inr (find_move_spec board offset)"
    using assms by (simp add: get_move_first wrapped_scan_rotated find_move_spec_def)
  then show ?thesis by (simp add: find_move_spec_None)
qed

theorem get_move_scan_witness:
  "wf_board cross9 \<and> fst (5, 7) + length cross9 \<le> 2 ^ 64 \<and> snd (5, 7) + length cross9 \<le> 2 ^ 64 \<and>
   get_move cross9 (5, 7) = Inr (find_move_spec cross9 (5, 7)) \<and>
   find_move_spec cross9 (5, 7) = Some \<lparr>move_from = (6, 4), move_to = (4, 4)\<rparr>"
proof -
  have l: "length cross9 = 9" by (simp add: cross9_def)
  have h: "fst (5::nat, 7::nat) + length cross9 \<le> 2 ^ 64" "snd (5::nat, 7::nat) + length cross9 \<le> 2 ^ 64"
    by (simp_all add: l)
  from get_move_scan [OF wf_cross9 h]
  have "get_move cross9 (5, 7) = Inr (find_move_spec cross9 (5, 7))" by simp
  with get_move_cross9_5_7 wf_cross9 h show ?thesis by simp
qed

text \<open>
  C1 as stated fails for an offset near the top of \<^verbatim>\<open>size_t\<close>. The sum
  \<^verbatim>\<open>row + row_offset\<close> is computed in \<^verbatim>\<open>size_t\<close> and wraps at \<open>2 ^ 64\<close>, which is not
  a multiple of 9: with the row offset \<open>2 ^ 64 - 1\<close> the rows visited are
  \<open>6, 0, 1, 2, 3, 4, 5, 6, 7\<close>, row 8 is never scanned, and \<^verbatim>\<open>get_move\<close> reports no move
  on a board where the cell \<open>(8, 3)\<close> admits a jump, which the rotated scan of the
  specification finds.
\<close>

theorem get_move_scan_counterexample:
  "wf_board wrap_board \<and>
   get_move wrap_board (18446744073709551615, 0) = Inr None \<and>
   admits_jump wrap_board (8, 3) \<and>
   find_move_spec wrap_board (18446744073709551615, 0)
     = Some \<lparr>move_from = (8, 3), move_to = (8, 5)\<rparr>"
proof -
  have "wf_board wrap_board" by (simp add: wf_board_def square_def wrap_board_def)
  moreover have "get_move wrap_board (18446744073709551615, 0) = Inr None"
    by (simp add: get_move_def wrap_board_def get_from_board_def directions_def)
  moreover have "admits_jump wrap_board (8, 3)"
    by (simp add: admits_jump_def jump_ok_def wrap_board_def get_from_board_def directions_def)
  moreover have "find_move_spec wrap_board (18446744073709551615, 0)
     = Some \<lparr>move_from = (8, 3), move_to = (8, 5)\<rparr>"
    by (simp add: find_move_spec_def first_jump_def rotated_scan_def admits_jump_def jump_ok_def
        jump_move_def wrap_board_def get_from_board_def directions_def)
  ultimately show ?thesis by simp
qed

text \<open>
  C5. Every move that \<^verbatim>\<open>get_move\<close> returns on a board is valid for that board: its
  origin holds \<open>OCCUPIED\<close>, its destination holds \<open>EMPTY\<close>, the two are exactly two
  cells apart along one axis, and the cell between them holds \<open>OCCUPIED\<close>; so
  \<^verbatim>\<open>do_move\<close> accepts it. This holds for every offset.
\<close>

theorem get_move_valid:
  assumes "wf_board board" "get_move board offset = Inr (Some move)"
  shows "valid_move board move \<and> (\<exists>board'. do_move board move = Inr board')"
proof -
  from assms have v: "valid_move board move" by (rule get_move_Some_valid)
  from assms(1) have "square board" by (simp add: wf_board_def)
  from do_move_valid [OF this v] v show ?thesis by blast
qed

theorem get_move_valid_witness:
  "wf_board cross9 \<and>
   get_move cross9 (5, 7) = Inr (Some \<lparr>move_from = (6, 4), move_to = (4, 4)\<rparr>) \<and>
   valid_move cross9 \<lparr>move_from = (6, 4), move_to = (4, 4)\<rparr> \<and>
   (\<exists>board'. do_move cross9 \<lparr>move_from = (6, 4), move_to = (4, 4)\<rparr> = Inr board')"
  using get_move_valid [OF wf_cross9 get_move_cross9_5_7] wf_cross9 get_move_cross9_5_7
  by simp

section \<open>Claims about the move applier\<close>

text \<open>
  C6. For every board and every move that satisfies the preconditions (\<open>valid_move\<close>),
  \<^verbatim>\<open>do_move\<close> returns a board of the same size in which the origin is \<open>EMPTY\<close>, the
  destination is \<open>OCCUPIED\<close>, the cell between them is \<open>EMPTY\<close>, and every other cell
  is as before.
\<close>

theorem do_move_effect:
  assumes "square board" "valid_move board move"
  shows "\<exists>board'. do_move board move = Inr board' \<and>
           length board' = length board \<and> square board' \<and>
           get_from_board board' (int (fst (move_from move))) (int (snd (move_from move)))
             = Some EMPTY \<and>
           get_from_board board' (int (fst (move_to move))) (int (snd (move_to move)))
             = Some OCCUPIED \<and>
           get_from_board board' (int (midpoint (fst (move_from move)) (fst (move_to move))))
             (int (midpoint (snd (move_from move)) (snd (move_to move)))) = Some EMPTY \<and>
           (\<forall>row column.
              (row, column) \<noteq> move_from move \<longrightarrow>
              (row, column) \<noteq> move_to move \<longrightarrow>
              (row, column) \<noteq> (midpoint (fst (move_from move)) (fst (move_to move)),
                                midpoint (snd (move_from move)) (snd (move_to move))) \<longrightarrow>
              get_from_board board' (int row) (int column)
                = get_from_board board (int row) (int column))"
proof -
  obtain fr fc where mf: "move_from move = (fr, fc)" by (cases "move_from move")
  obtain tr tc where mt: "move_to move = (tr, tc)" by (cases "move_to move")
  note f = valid_move_facts [OF assms(2) mf mt]
  let ?b' = "after_jump board move"
  note cells = after_jump_cells [OF assms mf mt]
  have len: "length ?b' = length board" by (rule after_jump_length)
  have "do_move board move = Inr ?b'" using assms by (rule do_move_valid)
  moreover have "square ?b'" using assms(1) by (rule after_jump_square)
  moreover have "get_from_board ?b' (int fr) (int fc) = Some EMPTY"
    using f(1,2) by (simp add: get_from_board_nat len cells)
  moreover have "get_from_board ?b' (int tr) (int tc) = Some OCCUPIED"
    using f(4,5,10) by (auto simp: get_from_board_nat len cells)
  moreover have "get_from_board ?b' (int (midpoint fr tr)) (int (midpoint fc tc)) = Some EMPTY"
    using f(7,8,11,12) by (auto simp: get_from_board_nat len cells)
  moreover have "get_from_board ?b' (int row) (int column)
                   = get_from_board board (int row) (int column)"
    if "(row, column) \<noteq> (fr, fc)" "(row, column) \<noteq> (tr, tc)"
       "(row, column) \<noteq> (midpoint fr tr, midpoint fc tc)" for row column
    using that by (auto simp: get_from_board_nat len cells)
  ultimately show ?thesis using len by (simp add: mf mt)
qed

theorem do_move_effect_witness:
  "square cross9 \<and> valid_move cross9 \<lparr>move_from = (6, 4), move_to = (4, 4)\<rparr> \<and>
   (\<exists>board'. do_move cross9 \<lparr>move_from = (6, 4), move_to = (4, 4)\<rparr> = Inr board' \<and>
      get_from_board board' 6 4 = Some EMPTY \<and>
      get_from_board board' 4 4 = Some OCCUPIED \<and>
      get_from_board board' 5 4 = Some EMPTY \<and>
      get_from_board board' 0 2 = get_from_board cross9 0 2)"
proof -
  from do_move_effect [OF square_cross9 valid_move_cross9] obtain board' where
    b: "do_move cross9 \<lparr>move_from = (6, 4), move_to = (4, 4)\<rparr> = Inr board'"
       "get_from_board board' (int 6) (int 4) = Some EMPTY"
       "get_from_board board' (int 4) (int 4) = Some OCCUPIED"
       "get_from_board board' (int (midpoint 6 4)) (int (midpoint 4 4)) = Some EMPTY"
       "\<forall>row column. (row, column) \<noteq> (6, 4) \<longrightarrow> (row, column) \<noteq> (4, 4) \<longrightarrow>
          (row, column) \<noteq> (midpoint 6 4, midpoint 4 4) \<longrightarrow>
          get_from_board board' (int row) (int column) = get_from_board cross9 (int row) (int column)"
    by auto
  have m: "midpoint 6 4 = 5" "midpoint 4 4 = 4" by (simp_all add: midpoint_def)
  from b(5) [rule_format, of 0 2]
  have "get_from_board board' 0 2 = get_from_board cross9 0 2"
    by (simp add: m)
  with b(1,2,3,4) square_cross9 valid_move_cross9 show ?thesis
    by (auto simp: m)
qed

text \<open>
  C7 fails on the code. The second assertion of \<^verbatim>\<open>do_move\<close> is
  \<^verbatim>\<open>assert(from == FieldState::EMPTY)\<close>, placed where the destination is about to be
  written: it reads the origin, which was set to \<open>EMPTY\<close> on the line before, so it always
  holds and the destination is never checked. On the initial board of size 9 the move from
  \<open>(2, 2)\<close> to \<open>(2, 4)\<close> has an \<open>OCCUPIED\<close> destination; \<^verbatim>\<open>do_move\<close> does not
  fail, it empties the origin and the cell between, and two pegs are gone.
\<close>

theorem do_move_destination_unchecked:
  "get_from_board cross9 2 2 = Some OCCUPIED \<and>
   get_from_board cross9 2 3 = Some OCCUPIED \<and>
   get_from_board cross9 2 4 = Some OCCUPIED \<and>
   do_move cross9 \<lparr>move_from = (2, 2), move_to = (2, 4)\<rparr>
     = Inr (put (put cross9 2 2 EMPTY) 2 3 EMPTY) \<and>
   get_score cross9 = 68 \<and>
   get_score (put (put cross9 2 2 EMPTY) 2 3 EMPTY) = 66"
  by (simp add: do_move_def cross9_def in_bounds_def put_def midpoint_def get_from_board_def
      get_score_def list_update_numeral)

section \<open>Claims about the simulation\<close>

text \<open>
  C2. \<^verbatim>\<open>get_move\<close> is deterministic: it reads nothing but its two arguments, so two calls
  with the same board and the same offset return the same result. A run of the simulation
  seeds the generator first, so what it computes (the moves, the final board, the score it
  returns) does not depend on the state in which earlier runs left the generator: every
  repetition with the same seed gives the same move sequence and the same score. The generator
  enters the run through the numbers it draws only: two generators that make the same draws
  from the seed give the same moves and the same score.
\<close>

theorem simulation_deterministic:
  "(board1 = board2 \<and> offset1 = offset2 \<longrightarrow> get_move board1 offset1 = get_move board2 offset2) \<and>
   simulate srand rand seed g0 = simulate srand rand seed g0' \<and>
   run_simulation srand rand seed g0 = run_simulation srand rand seed g0' \<and>
   (same_draws R rand rand' \<and> R (srand seed) (srand' seed) \<longrightarrow>
      outcome (simulate srand rand seed g0) = outcome (simulate srand' rand' seed h0) \<and>
      run_simulation srand rand seed g0 = run_simulation srand' rand' seed h0)"
proof -
  have a: "simulate srand rand seed g0 = simulate srand rand seed g0'"
    by (simp add: simulate_def sim_start_def)
  then have b: "run_simulation srand rand seed g0 = run_simulation srand rand seed g0'"
    by (simp add: run_simulation_def)
  have c: "outcome (simulate srand rand seed g0) = outcome (simulate srand' rand' seed h0) \<and>
      run_simulation srand rand seed g0 = run_simulation srand' rand' seed h0"
    if "same_draws R rand rand'" "R (srand seed) (srand' seed)"
  proof -
    from that have "outcome (simulate srand rand seed g0) = outcome (simulate srand' rand' seed h0)"
      by (rule simulate_same_draws)
    then show ?thesis by (simp add: run_simulation_outcome)
  qed
  from a b c show ?thesis by blast
qed

theorem simulation_deterministic_witness:
  "cross9 = cross9 \<and> (5::nat, 7::nat) = (5, 7) \<and>
   get_move cross9 (5, 7) = Inr (Some \<lparr>move_from = (6, 4), move_to = (4, 4)\<rparr>) \<and>
   get_move cross9 (5, 7) = get_move cross9 (5, 7) \<and>
   simulate (\<lambda>seed. seed) (\<lambda>g. (g, Suc g)) 42 (0::nat)
     = simulate (\<lambda>seed. seed) (\<lambda>g. (g, Suc g)) 42 1 \<and>
   same_draws (\<lambda>g h. int g = h) (\<lambda>g. (g, Suc g)) (\<lambda>h. (nat h, h + 1)) \<and>
   int 42 = int 42 \<and>
   outcome (simulate (\<lambda>seed. seed) (\<lambda>g. (g, Suc g)) 42 (0::nat))
     = outcome (simulate (\<lambda>seed. int seed) (\<lambda>h. (nat h, h + 1)) 42 (7::int)) \<and>
   run_simulation (\<lambda>seed. seed) (\<lambda>g. (g, Suc g)) 42 (0::nat)
     = run_simulation (\<lambda>seed. int seed) (\<lambda>h. (nat h, h + 1)) 42 (7::int)"
proof -
  have s: "same_draws (\<lambda>g h. int g = h) (\<lambda>g. (g, Suc g)) (\<lambda>h. (nat h, h + 1))"
    by (auto simp: same_draws_def)
  from simulation_deterministic [of cross9 cross9 "(5, 7)" "(5, 7)"
      "\<lambda>seed. seed" "\<lambda>g. (g, Suc g)" 42 0 1
      "\<lambda>g h. int g = h" "\<lambda>h. (nat h, h + 1)" "\<lambda>seed. int seed" 7] s get_move_cross9_5_7
  show ?thesis by blast
qed

text \<open>
  C8. Applying a valid move decreases the number of \<open>OCCUPIED\<close> cells by exactly one.
  The score that the driver tracks, set to \<open>board_size * board_size - 13\<close> and decremented
  once for each applied move, equals \<open>get_score\<close> of the board after every number \<open>k\<close>
  of iterations and when the run halts, and the value that \<^verbatim>\<open>run_simulation\<close> returns is
  \<open>get_score\<close> of the final board.
\<close>

theorem score_tracking:
  "(square board \<and> valid_move board move \<longrightarrow>
      (\<exists>board'. do_move board move = Inr board' \<and> get_score board' = get_score board - 1)) \<and>
   (\<exists>st. simulate_steps srand rand seed g0 k = Inr st \<and>
      sim_score st = get_score (sim_board st) \<and>
      sim_score st = int board_size * int board_size - 13 - int (length (sim_move_history st))) \<and>
   (\<exists>st. simulate srand rand seed g0 = Inr st \<and>
      sim_score st = get_score (sim_board st) \<and>
      run_simulation srand rand seed g0 = Inr (get_score (sim_board st)))"
proof -
  have a: "\<exists>board'. do_move board move = Inr board' \<and> get_score board' = get_score board - 1"
    if "square board" "valid_move board move"
  proof -
    from after_jump_count [OF that]
    have "int (count_state OCCUPIED (after_jump board move)) + 1 = int (count_state OCCUPIED board)"
      by linarith
    then have "get_score (after_jump board move) = get_score board - 1"
      by (simp add: get_score_count)
    with do_move_valid [OF that] show ?thesis by blast
  qed
  from sim_start_inv [of srand rand seed g0] obtain st0 where
    st0: "sim_start srand rand seed g0 = Inr st0" "sim_inv st0" by blast
  from sim_steps_inv [OF st0(2), of rand k] obtain st1 where
    st1: "sim_steps rand k st0 = Inr st1" "sim_inv st1" by blast
  have b: "\<exists>st. simulate_steps srand rand seed g0 k = Inr st \<and>
      sim_score st = get_score (sim_board st) \<and>
      sim_score st = int board_size * int board_size - 13 - int (length (sim_move_history st))"
    using st0(1) st1 by (auto simp: simulate_steps_def sim_inv_def)
  from sim_loop_inv [OF st0(2), of rand] obtain st2 where
    st2: "sim_loop rand st0 = Inr st2" "sim_inv st2" by blast
  have c: "\<exists>st. simulate srand rand seed g0 = Inr st \<and>
      sim_score st = get_score (sim_board st) \<and>
      run_simulation srand rand seed g0 = Inr (get_score (sim_board st))"
    using st0(1) st2 by (auto simp: simulate_def run_simulation_def sim_inv_def)
  from a b c show ?thesis by blast
qed

theorem score_tracking_witness:
  "square cross9 \<and> valid_move cross9 \<lparr>move_from = (6, 4), move_to = (4, 4)\<rparr> \<and>
   (\<exists>board'. do_move cross9 \<lparr>move_from = (6, 4), move_to = (4, 4)\<rparr> = Inr board' \<and>
      get_score board' = 67) \<and>
   (\<exists>st. simulate_steps (\<lambda>seed. seed) (\<lambda>g. (g, Suc g)) 42 (0::nat) 3 = Inr st \<and>
      sim_score st = get_score (sim_board st)) \<and>
   (\<exists>st. simulate (\<lambda>seed. seed) (\<lambda>g. (g, Suc g)) 42 (0::nat) = Inr st \<and>
      sim_score st = get_score (sim_board st))"
  using score_tracking [of cross9 "\<lparr>move_from = (6, 4), move_to = (4, 4)\<rparr>"
      "\<lambda>seed. seed" "\<lambda>g. (g, Suc g)" 42 0 3]
    square_cross9 valid_move_cross9 get_score_cross9
  by auto

text \<open>
  C9. Every simulation run halts, whatever the generator and the seed: it returns a final state
  without failing, the last answer of the move finder in it is "no move", and at most
  \<open>board_size * board_size - 1\<close> moves were applied: the loop has ended after that many
  iterations.
\<close>

theorem simulation_halts:
  "\<exists>st. simulate srand rand seed g0 = Inr st \<and>
        sim_possible_move st = None \<and>
        length (sim_move_history st) \<le> board_size * board_size - 1 \<and>
        simulate_steps srand rand seed g0 (board_size * board_size - 1) = Inr st \<and>
        run_simulation srand rand seed g0 = Inr (sim_score st)"
proof -
  from sim_start_inv [of srand rand seed g0] obtain st0 where
    st0: "sim_start srand rand seed g0 = Inr st0" "sim_inv st0"
      "sim_score st0 = int board_size * int board_size - 13" by blast
  from sim_loop_inv [OF st0(2), of rand] obtain st where
    st: "sim_loop rand st0 = Inr st" "sim_inv st" "sim_possible_move st = None" by blast
  from st0(3) have "sim_score st0 \<le> int (board_size * board_size - 1)"
    by (simp add: board_size_def)
  from sim_steps_enough [OF st0(2) this, of rand] st(1)
  have steps: "sim_steps rand (board_size * board_size - 1) st0 = Inr st" by simp
  from st(2) have "int (length (sim_move_history st)) + get_score (sim_board st)
                     = int board_size * int board_size - 13"
    by (simp add: sim_inv_def)
  moreover have "0 \<le> get_score (sim_board st)" by (simp add: get_score_count)
  ultimately have "length (sim_move_history st) \<le> board_size * board_size - 1"
    by (simp add: board_size_def)
  with st0(1) st steps show ?thesis
    by (simp add: simulate_def simulate_steps_def run_simulation_def)
qed

theorem simulation_halts_witness:
  "\<exists>st. simulate (\<lambda>seed. seed) (\<lambda>g. (g, Suc g)) 42 (0::nat) = Inr st \<and>
        sim_possible_move st = None \<and>
        length (sim_move_history st) \<le> 80 \<and>
        simulate_steps (\<lambda>seed. seed) (\<lambda>g. (g, Suc g)) 42 (0::nat) 80 = Inr st"
  using simulation_halts [of "\<lambda>seed. seed" "\<lambda>g. (g, Suc g)" 42 0]
  by (auto simp: board_size_def)

text \<open>
  C10. The \<open>UNUSABLE\<close> cells do not change in a simulation run: every board reachable
  from the initial board by moves of the finder has exactly the \<open>UNUSABLE\<close> cells of the
  initial board. On such a board the finder never returns a move whose origin, midpoint or
  destination is \<open>UNUSABLE\<close> (they are \<open>OCCUPIED\<close>, \<open>OCCUPIED\<close> and \<open>EMPTY\<close>),
  and \<^verbatim>\<open>do_move\<close>, which in a run is called with the finder's move only, writes to no
  \<open>UNUSABLE\<close> cell: the board it returns has the same \<open>UNUSABLE\<close> cells.
\<close>

theorem unusable_invariant:
  assumes "sz < 2 ^ 31" "make_board sz = Inr board0" "reachable sz board"
  shows "(\<forall>row column. get_from_board board row column = Some UNUSABLE
            \<longleftrightarrow> get_from_board board0 row column = Some UNUSABLE) \<and>
         (\<forall>offset move. get_move board offset = Inr (Some move) \<longrightarrow>
            origin_state board move = Some OCCUPIED \<and>
            midpoint_state board move = Some OCCUPIED \<and>
            destination_state board move = Some EMPTY \<and>
            (\<exists>board'. do_move board move = Inr board' \<and>
               (\<forall>row column. get_from_board board' row column = Some UNUSABLE
                  \<longleftrightarrow> get_from_board board row column = Some UNUSABLE)))"
proof -
  from reachable_unusable [OF assms] have wf: "wf_board board"
    and un: "\<forall>r c. get_from_board board r c = Some UNUSABLE
               \<longleftrightarrow> get_from_board board0 r c = Some UNUSABLE"
    by simp_all
  from wf have sq: "square board" by (simp add: wf_board_def)
  have "origin_state board move = Some OCCUPIED \<and>
        midpoint_state board move = Some OCCUPIED \<and>
        destination_state board move = Some EMPTY \<and>
        (\<exists>board'. do_move board move = Inr board' \<and>
           (\<forall>row column. get_from_board board' row column = Some UNUSABLE
              \<longleftrightarrow> get_from_board board row column = Some UNUSABLE))"
    if "get_move board offset = Inr (Some move)" for offset move
  proof -
    from get_move_Some_valid [OF wf that] have v: "valid_move board move" .
    then have "origin_state board move = Some OCCUPIED"
      "midpoint_state board move = Some OCCUPIED"
      "destination_state board move = Some EMPTY"
      by (auto simp: valid_move_def origin_state_def midpoint_state_def destination_state_def
          split: prod.splits)
    with do_move_valid [OF sq v] after_jump_unusable [OF sq v] show ?thesis by simp
  qed
  with un show ?thesis by blast
qed

lemma reachable_after_jump_cross9:
  "reachable 9 (after_jump cross9 \<lparr>move_from = (6, 4), move_to = (4, 4)\<rparr>)"
proof -
  have r: "reachable 9 cross9" using make_board_9 by (rule reachable.start)
  have d: "do_move cross9 \<lparr>move_from = (6, 4), move_to = (4, 4)\<rparr>
             = Inr (after_jump cross9 \<lparr>move_from = (6, 4), move_to = (4, 4)\<rparr>)"
    using square_cross9 valid_move_cross9 by (rule do_move_valid)
  from r get_move_cross9_5_7 d show ?thesis by (rule reachable.step)
qed

theorem unusable_invariant_witness:
  "(9::nat) < 2 ^ 31 \<and> make_board 9 = Inr cross9 \<and>
   reachable 9 (after_jump cross9 \<lparr>move_from = (6, 4), move_to = (4, 4)\<rparr>) \<and>
   get_from_board (after_jump cross9 \<lparr>move_from = (6, 4), move_to = (4, 4)\<rparr>) 0 1
     = Some UNUSABLE \<and>
   get_from_board (after_jump cross9 \<lparr>move_from = (6, 4), move_to = (4, 4)\<rparr>) 1 1
     \<noteq> Some UNUSABLE"
proof -
  have h: "(9::nat) < 2 ^ 31" by simp
  from unusable_invariant [OF h make_board_9 reachable_after_jump_cross9]
  have "\<forall>row column.
          get_from_board (after_jump cross9 \<lparr>move_from = (6, 4), move_to = (4, 4)\<rparr>) row column
            = Some UNUSABLE \<longleftrightarrow> get_from_board cross9 row column = Some UNUSABLE"
    by blast
  moreover have "get_from_board cross9 0 1 = Some UNUSABLE" "get_from_board cross9 1 1 = Some OCCUPIED"
    by (simp_all add: get_from_board_def cross9_def)
  ultimately show ?thesis using h make_board_9 reachable_after_jump_cross9 by simp
qed

end
